theory Spec2Isabelle
  imports Main "HOL-Library.Sublist"
begin

section \<open>Texts and the string operations of the two scripts\<close>

text \<open>
  Both scripts read the whole target file into one Python \<open>str\<close>, rewrite it and write
  it back. A Python \<open>str\<close> is a sequence of Unicode code points, so a text is a list
  of code points (natural numbers); \<open>str\<close> turns an ASCII literal into such a list and
  the non-ASCII characters of the scripts are written by their code point.
\<close>

type_synonym source_text = "nat list"

definition str :: "string \<Rightarrow> source_text" where
  "str s = map of_char s"

text \<open>
  \<open>old in s\<close> is \<^const>\<open>sublist\<close>. \<open>s.replace(old, new)\<close> replaces every
  non-overlapping occurrence of \<open>old\<close>, scanning from the left; for an empty \<open>old\<close>
  Python puts \<open>new\<close> before every character and at the end.
\<close>

fun replace_all :: "source_text \<Rightarrow> source_text \<Rightarrow> source_text \<Rightarrow> source_text" where
  "replace_all old new [] = (if old = [] then new else [])"
| "replace_all old new (x # xs) =
     (if old = [] then new @ x # replace_all old new xs
      else if prefix old (x # xs)
        then new @ replace_all old new (drop (length old) (x # xs))
        else x # replace_all old new xs)"

text \<open>\<open>s.split('\n')\<close> and \<open>'\n'.join(lines)\<close>, for any separator character.\<close>

fun split_on :: "nat \<Rightarrow> source_text \<Rightarrow> source_text list" where
  "split_on c [] = [[]]"
| "split_on c (x # xs) =
     (if x = c then [] # split_on c xs
      else (case split_on c xs of [] \<Rightarrow> [[x]] | l # ls \<Rightarrow> (x # l) # ls))"

fun join_with :: "nat \<Rightarrow> source_text list \<Rightarrow> source_text" where
  "join_with c [] = []"
| "join_with c [l] = l"
| "join_with c (l # ls) = l @ c # join_with c ls"

section \<open>The regular expressions\<close>

text \<open>
  The three patterns of the scripts are sequences of single characters, the line start
  \<open>^\<close> (under \<open>re.MULTILINE\<close>) and repetitions of one character class: \<open>\s*\<close>,
  \<open>\s+\<close>, \<open>[^)]+\<close>, \<open>[^}]+\<close> (greedy) and \<open>.*?\<close> (lazy, under \<open>re.DOTALL\<close>, where
  the dot matches every character). \<open>\s\<close> on a \<open>str\<close> pattern is Unicode white space.
\<close>

datatype cls = Any | Space | Not nat

definition is_space :: "nat \<Rightarrow> bool" where
  "is_space c \<longleftrightarrow>
     (9 \<le> c \<and> c \<le> 13) \<or> (28 \<le> c \<and> c \<le> 32) \<or> c = 133 \<or> c = 160 \<or> c = 5760
     \<or> (8192 \<le> c \<and> c \<le> 8202) \<or> c = 8232 \<or> c = 8233 \<or> c = 8239 \<or> c = 8287
     \<or> c = 12288"

fun in_cls :: "cls \<Rightarrow> nat \<Rightarrow> bool" where
  "in_cls Any c = True"
| "in_cls Space c = is_space c"
| "in_cls (Not d) c = (c \<noteq> d)"

datatype item = Bol | Ch nat | Star cls | Plus cls | LazyStar cls

definition lit :: "source_text \<Rightarrow> item list" where
  "lit l = map Ch l"

text \<open>
  The backtracking matcher of \<open>re\<close>: \<open>rmatch items prev s\<close> matches the items at the
  start of \<open>s\<close>, where \<open>prev\<close> is the character before \<open>s\<close> in the whole text (\<open>None\<close>
  at its start), and returns the text after the match. A greedy repetition tries the
  longest run first and gives characters back one at a time; a lazy one tries the
  shortest first. The first alternative that lets the rest of the pattern match wins.
\<close>

function rmatch :: "item list \<Rightarrow> nat option \<Rightarrow> source_text \<Rightarrow> source_text option" where
  "rmatch [] prev s = Some s"
| "rmatch (Bol # r) prev s =
     (if prev = None \<or> prev = Some 10 then rmatch r prev s else None)"
| "rmatch (Ch c # r) prev [] = None"
| "rmatch (Ch c # r) prev (x # xs) = (if x = c then rmatch r (Some x) xs else None)"
| "rmatch (Star c # r) prev [] = rmatch r prev []"
| "rmatch (Star c # r) prev (x # xs) =
     (if in_cls c x
      then (case rmatch (Star c # r) (Some x) xs of
              Some t \<Rightarrow> Some t
            | None \<Rightarrow> rmatch r prev (x # xs))
      else rmatch r prev (x # xs))"
| "rmatch (Plus c # r) prev [] = None"
| "rmatch (Plus c # r) prev (x # xs) =
     (if in_cls c x then rmatch (Star c # r) (Some x) xs else None)"
| "rmatch (LazyStar c # r) prev [] = rmatch r prev []"
| "rmatch (LazyStar c # r) prev (x # xs) =
     (case rmatch r prev (x # xs) of
        Some t \<Rightarrow> Some t
      | None \<Rightarrow> if in_cls c x then rmatch (LazyStar c # r) (Some x) xs else None)"
  by pat_completeness auto
termination
  by (relation "measures [\<lambda>(r, p, s). length s, \<lambda>(r, p, s). length r]") auto

text \<open>
  \<open>re.sub(pattern, repl, s)\<close>: scan from the left; where the pattern matches, put the
  replacement (a function of the matched text, for the group reference \<open>\1\<close>) and go on
  behind the match; elsewhere copy one character. No pattern of the scripts matches the
  empty text, so the branch for an empty match (replace, copy one character, go on) is
  never taken by them.
\<close>

fun re_sub :: "item list \<Rightarrow> (source_text \<Rightarrow> source_text) \<Rightarrow> nat option \<Rightarrow> source_text \<Rightarrow> source_text" where
  "re_sub pat repl prev [] = (case rmatch pat prev [] of Some t \<Rightarrow> repl [] | None \<Rightarrow> [])"
| "re_sub pat repl prev (x # xs) =
     (case rmatch pat prev (x # xs) of
        Some t \<Rightarrow>
          if length t < length (x # xs)
          then (let m = take (length (x # xs) - length t) (x # xs)
                in repl m @ re_sub pat repl (Some (last m)) t)
          else repl [] @ x # re_sub pat repl (Some x) xs
      | None \<Rightarrow> x # re_sub pat repl (Some x) xs)"

section \<open>The Patcher (add\_debug\_logs\_v2.py)\<close>

definition mount_log :: source_text where
  "mount_log =
     [10] @ str ''    // '' @ [12510, 12454, 12531, 12488, 30906, 35469, 29992, 10]
     @ str ''    useEffect(() => {'' @ [10]
     @ str ''        addDebugLog('' @ [39, 128640] @ str '' PDFPane Mounted'' @ [39] @ str '')'' @ [10]
     @ str ''        return () => addDebugLog('' @ [39, 128128] @ str '' PDFPane Unmounted'' @ [39]
     @ str '')'' @ [10]
     @ str ''    }, [])'' @ [10]"

definition mount_marker :: source_text where
  "mount_marker = [128640] @ str '' PDFPane Mounted''"

text \<open>
  \<open>(const addDebugLog = \(msg: string\) => \{[^}]+\n\s+console\.log\(msg\)\n\s+\})\<close>;
  the group is the whole match.
\<close>

definition func_pattern :: "item list" where
  "func_pattern =
     lit (str ''const addDebugLog = (msg: string) => {'') @ [Plus (Not 125), Ch 10, Plus Space]
     @ lit (str ''console.log(msg)'') @ [Ch 10, Plus Space, Ch 125]"

definition rule1 :: "source_text \<Rightarrow> source_text" where
  "rule1 content =
     (if \<not> sublist mount_marker content
      then re_sub func_pattern (\<lambda>m. m @ mount_log) None content
      else content)"

definition anchor2 :: source_text where
  "anchor2 = str ''addDebugLog('' @ [96, 9989] @ str '' Valid tap, gap=${timeSinceLastTap}ms''
     @ [96] @ str '')''"

definition insert2 :: source_text where
  "insert2 = [10] @ str ''                            addDebugLog('' @ [96, 128269]
     @ str '' Check: Ref=${lastTwoFingerTapTime.current}, Now=${now}'' @ [96] @ str '')''"

definition marker2 :: source_text where
  "marker2 = [128269] @ str '' Check: Ref=''"

definition rule2 :: "source_text \<Rightarrow> source_text" where
  "rule2 content =
     (if \<not> sublist marker2 content
      then replace_all anchor2 (anchor2 @ insert2) content
      else content)"

definition anchor3 :: source_text where
  "anchor3 = str ''addDebugLog('' @ [39, 127881] @ str '' DOUBLE TAP SUCCESS!'' @ [39] @ str '')''"

definition insert3 :: source_text where
  "insert3 = [10] @ str ''                                addDebugLog('' @ [96, 128260]
     @ str '' Undo Reset. Was: ${lastTwoFingerTapTime.current}'' @ [96] @ str '')''"

definition marker3 :: source_text where
  "marker3 = [128260] @ str '' Undo Reset''"

definition rule3 :: "source_text \<Rightarrow> source_text" where
  "rule3 content =
     (if \<not> sublist marker3 content
      then replace_all anchor3 (anchor3 @ insert3) content
      else content)"

definition anchor4 :: source_text where
  "anchor4 = str ''addDebugLog('' @ [39, 128221] @ str '' First tap recorded'' @ [39] @ str '')''"

definition insert4 :: source_text where
  "insert4 = [10] @ str ''                                addDebugLog('' @ [96, 128190]
     @ str '' Set Ref. Was: ${lastTwoFingerTapTime.current} -> New: ${now}'' @ [96] @ str '')''"

definition marker4 :: source_text where
  "marker4 = [128190] @ str '' Set Ref''"

definition rule4 :: "source_text \<Rightarrow> source_text" where
  "rule4 content =
     (if \<not> sublist marker4 content
      then replace_all anchor4 (anchor4 @ insert4) content
      else content)"

definition anchor5 :: source_text where
  "anchor5 = str ''addDebugLog('' @ [39, 9201, 65039] @ str '' Timeout - reset'' @ [39] @ str '')''"

definition insert5 :: source_text where
  "insert5 = [10] @ str ''                                    addDebugLog('' @ [96, 128465, 65039]
     @ str '' Timeout Reset. Was: ${lastTwoFingerTapTime.current}'' @ [96] @ str '')''"

definition marker5 :: source_text where
  "marker5 = [128465, 65039] @ str '' Timeout Reset''"

definition rule5 :: "source_text \<Rightarrow> source_text" where
  "rule5 content =
     (if \<not> sublist marker5 content
      then replace_all anchor5 (anchor5 @ insert5) content
      else content)"

text \<open>The script applies the five rules in this order to the content of the file.\<close>

definition patch :: "source_text \<Rightarrow> source_text" where
  "patch content = rule5 (rule4 (rule3 (rule2 (rule1 content))))"

section \<open>The Unpatcher (remove\_debug\_logs.py)\<close>

text \<open>\<open>^\s*addDebugLog\([^)]+\)\s*\n\<close> with \<open>re.MULTILINE\<close>.\<close>

definition line_pattern :: "item list" where
  "line_pattern =
     [Bol, Star Space] @ lit (str ''addDebugLog('') @ [Plus (Not 41), Ch 41, Star Space, Ch 10]"

text \<open>
  \<open>\s*\{/\* Debug Log Display \(iPad<U+7528>\) \*/\}.*?\{debugLogs\.map\(\(log, i\) => \(.*?\n\s*\)\)\}\s*</div>\s*\)\}\s*\n\<close>
  with \<open>re.DOTALL\<close>.
\<close>

definition debug_display_pattern :: "item list" where
  "debug_display_pattern =
     [Star Space] @ lit (str ''{/* Debug Log Display (iPad'' @ [29992] @ str '') */}'')
     @ [LazyStar Any] @ lit (str ''{debugLogs.map((log, i) => ('')
     @ [LazyStar Any, Ch 10, Star Space] @ lit (str ''))}'')
     @ [Star Space] @ lit (str ''</div>'')
     @ [Star Space] @ lit (str '')}'')
     @ [Star Space, Ch 10]"

text \<open>
  The fallback loop over the lines. Its state is the counter \<open>skip_until_close\<close> and the
  list \<open>new_lines\<close>; \<open>scan_step\<close> is one pass through the loop body.
\<close>

record scan_state =
  skip_until_close :: int
  new_lines :: "source_text list"

definition is_marker_line :: "source_text \<Rightarrow> bool" where
  "is_marker_line line \<longleftrightarrow>
     sublist (str ''Debug Log Display'') line \<or> sublist (str ''debugLogs.length'') line"

definition scan_step :: "scan_state \<Rightarrow> source_text \<Rightarrow> scan_state" where
  "scan_step st line =
     (if is_marker_line line then st\<lparr>skip_until_close := 1\<rparr>
      else if skip_until_close st > 0 then
        (let s = skip_until_close st + (int (count_list line 123) - int (count_list line 125))
         in if s \<le> 0 then st\<lparr>skip_until_close := 0\<rparr> else st\<lparr>skip_until_close := s\<rparr>)
      else st\<lparr>new_lines := new_lines st @ [line]\<rparr>)"

definition scan_lines :: "source_text list \<Rightarrow> scan_state" where
  "scan_lines lines = foldl scan_step \<lparr>skip_until_close = 0, new_lines = []\<rparr> lines"

definition remove_calls :: "source_text \<Rightarrow> source_text" where
  "remove_calls content = re_sub line_pattern (\<lambda>m. []) None content"

definition remove_display :: "source_text \<Rightarrow> source_text" where
  "remove_display content = re_sub debug_display_pattern (\<lambda>m. []) None content"

definition fallback :: "source_text \<Rightarrow> source_text" where
  "fallback content =
     (if sublist (str ''debugLogs.length'') content
      then join_with 10 (new_lines (scan_lines (split_on 10 content)))
      else content)"

definition unpatch :: "source_text \<Rightarrow> source_text" where
  "unpatch content = fallback (remove_display (remove_calls content))"

section \<open>Notions used to state the properties of the fallback scan\<close>

text \<open>
  The change of the nesting depth over one line: its opening braces minus its closing
  braces, as the loop adds it to its counter.
\<close>

definition brace_delta :: "source_text \<Rightarrow> int" where
  "brace_delta line = int (count_list line 123) - int (count_list line 125)"

text \<open>
  A block of lines, entered at depth \<open>d\<close>, whose running brace count stays positive
  until its last line and is zero or below after it.
\<close>

fun closes_exactly :: "int \<Rightarrow> source_text list \<Rightarrow> bool" where
  "closes_exactly d [] = False"
| "closes_exactly d (l # ls) =
     (if ls = [] then d + brace_delta l \<le> 0
      else 0 < d + brace_delta l \<and> closes_exactly (d + brace_delta l) ls)"

section \<open>Sample texts\<close>

text \<open>Small inputs on which the theorems below are instantiated.\<close>

definition nested_marker_text :: source_text where
  "nested_marker_text =
     str ''{debugLogs.length > 0 && ('' @ [10] @ str ''{debugLogs.length > 5 && ('' @ [10]
     @ str '')}'' @ [10] @ str '')}'' @ [10] @ str ''<p/>''"

definition unclosed_text :: source_text where
  "unclosed_text =
     str ''<a/>'' @ [10] @ str ''{debugLogs.length > 0 && ('' @ [10] @ str ''<b/>'' @ [10] @ str ''<c/>''"

definition nested_block_text :: source_text where
  "nested_block_text =
     str ''<a/>'' @ [10] @ str ''{debugLogs.length > 0 && ('' @ [10]
     @ str ''<div style={{color: 1}}>'' @ [10] @ str ''{open && ('' @ [10] @ str '')}'' @ [10]
     @ str '')}'' @ [10] @ str ''<p/>''"

section \<open>What the patterns match\<close>

text \<open>
  The texts a pattern can match, stated without the search order of the matcher:
  \<open>lang items prev w\<close> holds when \<open>w\<close>, standing behind the character \<open>prev\<close>, is
  matched by the items in some way. \<open>adv prev w\<close> is the character before the position
  reached after \<open>w\<close>.
\<close>

fun adv :: "nat option \<Rightarrow> source_text \<Rightarrow> nat option" where
  "adv prev [] = prev"
| "adv prev (x # xs) = Some (last (x # xs))"

fun lang :: "item list \<Rightarrow> nat option \<Rightarrow> source_text \<Rightarrow> bool" where
  "lang [] prev w = (w = [])"
| "lang (Bol # r) prev w = ((prev = None \<or> prev = Some 10) \<and> lang r prev w)"
| "lang (Ch c # r) prev w = (\<exists>v. w = c # v \<and> lang r (Some c) v)"
| "lang (Star c # r) prev w =
     (\<exists>a b. w = a @ b \<and> (\<forall>x\<in>set a. in_cls c x) \<and> lang r (adv prev a) b)"
| "lang (Plus c # r) prev w =
     (\<exists>a b. w = a @ b \<and> a \<noteq> [] \<and> (\<forall>x\<in>set a. in_cls c x) \<and> lang r (adv prev a) b)"
| "lang (LazyStar c # r) prev w =
     (\<exists>a b. w = a @ b \<and> (\<forall>x\<in>set a. in_cls c x) \<and> lang r (adv prev a) b)"

text \<open>A pattern matches somewhere in a text: some part of the text is matched by it.\<close>

definition matches_in :: "item list \<Rightarrow> source_text \<Rightarrow> bool" where
  "matches_in pat s \<longleftrightarrow> (\<exists>u w v. s = u @ w @ v \<and> lang pat (adv None u) w)"

definition plain_text :: source_text where
  "plain_text = str ''const n = 1'' @ [10] @ str ''console.log(n)'' @ [10]"

definition func_text :: source_text where
  "func_text = str ''const addDebugLog = (msg: string) => {'' @ [10] @ str ''  setLogs(msg)'' @ [10]
     @ str ''  console.log(msg)'' @ [10] @ str ''  }''"

text \<open>What is left of \<open>mount_log\<close> when its first \<open>addDebugLog\<close> line is taken out.\<close>

definition mount_rest :: source_text where
  "mount_rest =
     [10] @ str ''    // '' @ [12510, 12454, 12531, 12488, 30906, 35469, 29992, 10]
     @ str ''    useEffect(() => {'' @ [10]
     @ str ''        return () => addDebugLog('' @ [39, 128128] @ str '' PDFPane Unmounted'' @ [39]
     @ str '')'' @ [10]
     @ str ''    }, [])'' @ [10]"

section \<open>Notions used to state the properties of the line removal\<close>

text \<open>
  The texts that the line pattern of the Unpatcher matches: white space, \<open>addDebugLog(\<close>,
  at least one character other than a closing parenthesis, the closing parenthesis, white
  space and a newline. White space includes the newline and the argument may contain
  newlines too, so such a text can run over several lines. A text has the shape when it
  starts at the start of the text or behind a newline.
\<close>

definition call_shape :: "source_text \<Rightarrow> bool" where
  "call_shape w \<longleftrightarrow>
     (\<exists>ws body ws'. w = ws @ str ''addDebugLog('' @ body @ [41] @ ws' @ [10]
        \<and> (\<forall>x\<in>set ws. is_space x) \<and> body \<noteq> [] \<and> 41 \<notin> set body \<and> (\<forall>x\<in>set ws'. is_space x))"

definition has_call_shape :: "source_text \<Rightarrow> bool" where
  "has_call_shape s \<longleftrightarrow> (\<exists>u w v. s = u @ w @ v \<and> (u = [] \<or> last u = 10) \<and> call_shape w)"

text \<open>
  Two notions on single lines: the line begins, behind white space, with \<open>addDebugLog(\<close>;
  and the line consists of one call \<open>addDebugLog(...)\<close>, with white space around it at
  most.
\<close>

definition starts_with_call :: "source_text \<Rightarrow> bool" where
  "starts_with_call line \<longleftrightarrow> prefix (str ''addDebugLog('') (dropWhile is_space line)"

definition is_call_statement :: "source_text \<Rightarrow> bool" where
  "is_call_statement line \<longleftrightarrow>
     (let r = dropWhile is_space line in
      prefix (str ''addDebugLog('') r \<and>
      (let b = drop (length (str ''addDebugLog('')) r in
       takeWhile (\<lambda>c. c \<noteq> 41) b \<noteq> [] \<and> dropWhile (\<lambda>c. c \<noteq> 41) b \<noteq> []
       \<and> list_all is_space (tl (dropWhile (\<lambda>c. c \<noteq> 41) b))))"

text \<open>The comment that starts the display block in the pattern of the Unpatcher.\<close>

definition display_comment :: source_text where
  "display_comment = str ''{/* Debug Log Display (iPad'' @ [29992] @ str '') */}''"

definition multiline_call_text :: source_text where
  "multiline_call_text = str ''addDebugLog('' @ [10] @ str ''foo(1)'' @ [10] @ str ''bar(2)'' @ [10]"

definition other_calls_text :: source_text where
  "other_calls_text = str ''  console.log(count)'' @ [10] @ str ''  logDebug(count)'' @ [10]"

section \<open>Notions used for the interplay of the rules\<close>

text \<open>
  No part of \<open>xs\<close> that reaches to its end agrees with \<open>p\<close> as far as both go: an
  occurrence of \<open>p\<close> cannot start inside \<open>xs\<close> and go on behind it, or lie in \<open>xs\<close>.
\<close>

fun no_overlap :: "source_text \<Rightarrow> source_text \<Rightarrow> bool" where
  "no_overlap [] p = True"
| "no_overlap (x # xs) p = (\<not> prefix (x # xs) p \<and> \<not> prefix p (x # xs) \<and> no_overlap xs p)"

text \<open>
  The common form of rules 2 to 5, and the states of a text in which such a rule, or
  rule 1, changes nothing: the marker is there, or the anchor is not.
\<close>

definition ins_rule :: "source_text \<Rightarrow> source_text \<Rightarrow> source_text \<Rightarrow> source_text \<Rightarrow> source_text" where
  "ins_rule marker anchor ins content =
     (if \<not> sublist marker content then replace_all anchor (anchor @ ins) content else content)"

definition settled :: "source_text \<Rightarrow> source_text \<Rightarrow> source_text \<Rightarrow> bool" where
  "settled marker anchor content \<longleftrightarrow> sublist marker content \<or> \<not> sublist anchor content"

definition settled1 :: "source_text \<Rightarrow> bool" where
  "settled1 content \<longleftrightarrow> sublist mount_marker content \<or> \<not> matches_in func_pattern content"

text \<open>
  The inserted text has a closing brace, the first one stands behind a character that is
  not white space, and more text follows it.
\<close>

definition brace_tail_ok :: "source_text \<Rightarrow> bool" where
  "brace_tail_ok ins \<longleftrightarrow>
     takeWhile (\<lambda>c. c \<noteq> 125) ins \<noteq> []
     \<and> \<not> is_space (last (takeWhile (\<lambda>c. c \<noteq> 125) ins))
     \<and> 2 \<le> length (dropWhile (\<lambda>c. c \<noteq> 125) ins)"

section \<open>The line pattern as a function\<close>

text \<open>
  What the matcher does on the line pattern, written out: \<open>cut_ws\<close> is \<open>\s*\n\<close>, the
  text behind the last newline of the white space at the start; \<open>call_rest\<close> skips white
  space, reads \<open>addDebugLog(\<close>, at least one character up to the first closing
  parenthesis, that parenthesis, and ends with \<open>cut_ws\<close>.
\<close>

fun cut_ws :: "source_text \<Rightarrow> source_text option" where
  "cut_ws [] = None"
| "cut_ws (x # xs) =
     (if is_space x
      then (case cut_ws xs of Some r \<Rightarrow> Some r | None \<Rightarrow> if x = 10 then Some xs else None)
      else None)"

definition call_rest :: "source_text \<Rightarrow> source_text option" where
  "call_rest t =
     (let t1 = dropWhile is_space t in
      if prefix (str ''addDebugLog('') t1 then
        (let t2 = drop (length (str ''addDebugLog('')) t1 in
         if takeWhile (\<lambda>c. c \<noteq> 41) t2 = [] then None
         else (case dropWhile (\<lambda>c. c \<noteq> 41) t2 of [] \<Rightarrow> None | y # ys \<Rightarrow> cut_ws ys))
      else None)"






section \<open>Facts about the string operations\<close>

lemma replace_all_prefix:
  "old \<noteq> [] \<Longrightarrow> replace_all old new (old @ r) = new @ replace_all old new r"
  by (cases old) simp_all

lemma replace_all_step:
  "\<not> prefix old (x # xs) \<Longrightarrow> replace_all old new (x # xs) = x # replace_all old new xs"
  by auto

lemma replace_all_empty_old:
  "replace_all [] new (x # xs) = new @ x # replace_all [] new xs"
  by simp

declare replace_all.simps(2) [simp del]

lemma replace_all_absent: "\<not> sublist old s \<Longrightarrow> replace_all old new s = s"
proof (induction s)
  case Nil
  then show ?case by auto
next
  case (Cons x xs)
  then have "\<not> prefix old (x # xs)" and "\<not> sublist old xs"
    by (auto simp: sublist_Cons_right)
  with Cons.IH show ?case by (simp add: replace_all_step)
qed

lemma subseq_replace_all: "subseq s (replace_all old (old @ ins) s)"
proof (induction "length s" arbitrary: s rule: less_induct)
  case less
  show ?case
  proof (cases s)
    case Nil
    then show ?thesis by simp
  next
    case (Cons x xs)
    show ?thesis
    proof (cases "old = []")
      case True
      from less[of xs] Cons have "subseq xs (replace_all old (old @ ins) xs)" by simp
      with True Cons show ?thesis by (simp add: replace_all_empty_old subseq_drop_many)
    next
      case False
      show ?thesis
      proof (cases "prefix old s")
        case True
        then obtain r where r: "s = old @ r" by (auto simp: prefix_def)
        with False have "length r < length s" by simp
        then have "subseq r (replace_all old (old @ ins) r)" by (rule less)
        then have "subseq (old @ r) ((old @ ins) @ replace_all old (old @ ins) r)"
          by (simp add: subseq_append' subseq_drop_many)
        with False r show ?thesis by (simp add: replace_all_prefix)
      next
        case np: False
        from less[of xs] Cons have "subseq xs (replace_all old (old @ ins) xs)" by simp
        with np Cons show ?thesis by (simp add: replace_all_step)
      qed
    qed
  qed
qed

section \<open>Facts about matching and substitution\<close>

lemma ex_suffix_Cons: "\<exists>m. xs = m @ t \<Longrightarrow> \<exists>m. x # xs = m @ t"
  by (metis append_Cons)

lemma rmatch_suffix: "rmatch r p s = Some t \<Longrightarrow> \<exists>m. s = m @ t"
  by (induction r p s arbitrary: t rule: rmatch.induct)
     (auto split: if_splits option.splits intro: ex_suffix_Cons)

lemma rmatch_length: "rmatch r p s = Some t \<Longrightarrow> length t \<le> length s"
  using rmatch_suffix by fastforce

lemma re_sub_None:
  "rmatch pat p (x # xs) = None \<Longrightarrow> re_sub pat repl p (x # xs) = x # re_sub pat repl (Some x) xs"
  by simp

lemma re_sub_Some:
  assumes "rmatch pat p (m @ t) = Some t" and "m \<noteq> []"
  shows "re_sub pat repl p (m @ t) = repl m @ re_sub pat repl (Some (last m)) t"
proof -
  from assms(2) obtain x xs where m: "m = x # xs" by (cases m) auto
  have "re_sub pat repl p (x # (xs @ t)) = repl m @ re_sub pat repl (Some (last m)) t"
    using assms(1) unfolding m by (simp add: Let_def)
  then show ?thesis by (simp add: m)
qed

lemma re_sub_empty:
  "rmatch pat p (x # xs) = Some (x # xs) \<Longrightarrow>
   re_sub pat repl p (x # xs) = repl [] @ x # re_sub pat repl (Some x) xs"
  by simp

declare re_sub.simps(2) [simp del]

lemma subseq_re_sub:
  assumes r: "\<And>m. subseq m (repl m)"
  shows "subseq s (re_sub pat repl p s)"
proof (induction "length s" arbitrary: s p rule: less_induct)
  case less
  show ?case
  proof (cases s)
    case Nil
    then show ?thesis by simp
  next
    case (Cons x xs)
    have ihx: "subseq xs (re_sub pat repl (Some x) xs)" using less[of xs] Cons by simp
    show ?thesis
    proof (cases "rmatch pat p s")
      case None
      with Cons ihx show ?thesis by (simp add: re_sub_None)
    next
      case (Some t)
      then obtain m where m: "s = m @ t" using rmatch_suffix by blast
      show ?thesis
      proof (cases "m = []")
        case True
        with m Some Cons have "rmatch pat p (x # xs) = Some (x # xs)" by simp
        from re_sub_empty[OF this] ihx Cons show ?thesis by (simp add: subseq_drop_many)
      next
        case False
        with m have "length t < length s" by simp
        then have "subseq t (re_sub pat repl (Some (last m)) t)" by (rule less)
        with r[of m] have "subseq (m @ t) (repl m @ re_sub pat repl (Some (last m)) t)"
          by (rule list_emb_append_mono)
        with re_sub_Some[of pat p m t repl] Some False m show ?thesis by simp
      qed
    qed
  qed
qed


section \<open>The Patcher only inserts\<close>

lemma subseq_rule1: "subseq c (rule1 c)"
proof -
  have "subseq m (m @ mount_log)" for m by (simp add: subseq_rev_drop_many)
  then have "subseq c (re_sub func_pattern (\<lambda>m. m @ mount_log) None c)"
    by (rule subseq_re_sub)
  then show ?thesis by (simp add: rule1_def)
qed

lemma subseq_rule2: "subseq c (rule2 c)"
  unfolding rule2_def by (simp add: subseq_replace_all)

lemma subseq_rule3: "subseq c (rule3 c)"
  unfolding rule3_def by (simp add: subseq_replace_all)

lemma subseq_rule4: "subseq c (rule4 c)"
  unfolding rule4_def by (simp add: subseq_replace_all)

lemma subseq_rule5: "subseq c (rule5 c)"
  unfolding rule5_def by (simp add: subseq_replace_all)

text \<open>
  Claim C8. The Patcher is insertion-only: every input text \<open>T\<close> is a subsequence of
  \<open>patch T\<close>, so each character of the input is still there, in its original order;
  the rules add text behind their anchors and delete, replace or reorder nothing.
\<close>

theorem patch_insertion_only: "subseq T (patch T)"
proof -
  have "subseq T (rule1 T)" by (rule subseq_rule1)
  also have "subseq \<dots> (rule2 (rule1 T))" by (rule subseq_rule2)
  also have "subseq \<dots> (rule3 (rule2 (rule1 T)))" by (rule subseq_rule3)
  also have "subseq \<dots> (rule4 (rule3 (rule2 (rule1 T))))" by (rule subseq_rule4)
  also have "subseq \<dots> (rule5 (rule4 (rule3 (rule2 (rule1 T)))))" by (rule subseq_rule5)
  finally show ?thesis by (simp add: patch_def)
qed

section \<open>The fallback scan\<close>

lemma scan_step_marker:
  "is_marker_line l \<Longrightarrow> scan_step st l = st\<lparr>skip_until_close := 1\<rparr>"
  by (simp add: scan_step_def)

lemma scan_step_skip:
  "\<not> is_marker_line l \<Longrightarrow> 0 < skip_until_close st \<Longrightarrow>
   scan_step st l =
     st\<lparr>skip_until_close :=
          (if skip_until_close st + brace_delta l \<le> 0 then 0
           else skip_until_close st + brace_delta l)\<rparr>"
  by (simp add: scan_step_def brace_delta_def Let_def)

lemma scan_step_keep:
  "\<not> is_marker_line l \<Longrightarrow> skip_until_close st \<le> 0 \<Longrightarrow>
   scan_step st l = st\<lparr>new_lines := new_lines st @ [l]\<rparr>"
  by (simp add: scan_step_def)

lemma scan_step_new_lines_app:
  "scan_step (st\<lparr>new_lines := a @ new_lines st\<rparr>) l
     = (scan_step st l)\<lparr>new_lines := a @ new_lines (scan_step st l)\<rparr>"
  by (simp add: scan_step_def Let_def)

lemma foldl_scan_new_lines_app:
  "foldl scan_step (st\<lparr>new_lines := a @ new_lines st\<rparr>) ls
     = (foldl scan_step st ls)\<lparr>new_lines := a @ new_lines (foldl scan_step st ls)\<rparr>"
proof (induction ls arbitrary: st)
  case Nil
  then show ?case by simp
next
  case (Cons l ls)
  show ?case by (simp add: scan_step_new_lines_app Cons.IH)
qed

text \<open>The lines kept from a state on depend on the state only through the counter.\<close>

lemma foldl_scan_split:
  "new_lines (foldl scan_step st ls)
     = new_lines st @ new_lines (foldl scan_step \<lparr>skip_until_close = skip_until_close st, new_lines = []\<rparr> ls)"
proof -
  let ?s0 = "\<lparr>skip_until_close = skip_until_close st, new_lines = []\<rparr>"
  have "st = ?s0\<lparr>new_lines := new_lines st @ new_lines ?s0\<rparr>" by simp
  then have "foldl scan_step st ls = foldl scan_step (?s0\<lparr>new_lines := new_lines st @ new_lines ?s0\<rparr>) ls"
    by (cases st) simp
  also have "\<dots> = (foldl scan_step ?s0 ls)\<lparr>new_lines := new_lines st @ new_lines (foldl scan_step ?s0 ls)\<rparr>"
    by (rule foldl_scan_new_lines_app)
  finally show ?thesis by simp
qed

lemma foldl_scan_skip_indep:
  "skip_until_close (foldl scan_step st ls)
     = skip_until_close (foldl scan_step \<lparr>skip_until_close = skip_until_close st, new_lines = []\<rparr> ls)"
proof -
  let ?s0 = "\<lparr>skip_until_close = skip_until_close st, new_lines = []\<rparr>"
  have "st = ?s0\<lparr>new_lines := new_lines st @ new_lines ?s0\<rparr>" by simp
  then have "foldl scan_step st ls = foldl scan_step (?s0\<lparr>new_lines := new_lines st @ new_lines ?s0\<rparr>) ls"
    by (cases st) simp
  also have "\<dots> = (foldl scan_step ?s0 ls)\<lparr>new_lines := new_lines st @ new_lines (foldl scan_step ?s0 ls)\<rparr>"
    by (rule foldl_scan_new_lines_app)
  finally show ?thesis by simp
qed

text \<open>While the counter stays positive nothing is kept.\<close>

lemma foldl_scan_all_skipped:
  "(\<forall>k\<le>length ls. 0 < skip_until_close (foldl scan_step st (take k ls))) \<Longrightarrow>
   new_lines (foldl scan_step st ls) = new_lines st"
proof (induction ls rule: rev_induct)
  case Nil
  then show ?case by simp
next
  case (snoc l ls)
  have "\<forall>k\<le>length ls. 0 < skip_until_close (foldl scan_step st (take k ls))"
  proof (intro allI impI)
    fix k assume "k \<le> length ls"
    with snoc.prems[rule_format, of k] show "0 < skip_until_close (foldl scan_step st (take k ls))"
      by simp
  qed
  then have ih: "new_lines (foldl scan_step st ls) = new_lines st" by (rule snoc.IH)
  from snoc.prems[rule_format, of "length ls"]
  have pos: "0 < skip_until_close (foldl scan_step st ls)" by simp
  show ?case
  proof (cases "is_marker_line l")
    case True
    with ih show ?thesis by (simp add: scan_step_marker)
  next
    case False
    with ih pos show ?thesis by (simp add: scan_step_skip)
  qed
qed

text \<open>Lines without a marker phrase, scanned with the counter at zero, are all kept.\<close>

lemma foldl_scan_no_marker:
  "\<forall>l\<in>set ls. \<not> is_marker_line l \<Longrightarrow> skip_until_close st \<le> 0 \<Longrightarrow>
   foldl scan_step st ls = st\<lparr>new_lines := new_lines st @ ls\<rparr>"
proof (induction ls arbitrary: st)
  case Nil
  then show ?case by simp
next
  case (Cons l ls)
  then have "scan_step st l = st\<lparr>new_lines := new_lines st @ [l]\<rparr>"
    by (simp add: scan_step_keep)
  with Cons show ?case by simp
qed

text \<open>A block without marker lines that closes at its last line is skipped whole.\<close>

lemma foldl_scan_block:
  "closes_exactly (skip_until_close st) bs \<Longrightarrow> \<forall>b\<in>set bs. \<not> is_marker_line b \<Longrightarrow>
   0 < skip_until_close st \<Longrightarrow>
   foldl scan_step st bs = st\<lparr>skip_until_close := 0\<rparr>"
proof (induction bs arbitrary: st)
  case Nil
  then show ?case by simp
next
  case (Cons b bs)
  from Cons.prems have nb: "\<not> is_marker_line b" by simp
  show ?case
  proof (cases "bs = []")
    case True
    with Cons.prems nb show ?thesis by (simp add: scan_step_skip)
  next
    case False
    let ?d = "skip_until_close st + brace_delta b"
    from Cons.prems False have pos: "0 < ?d" and cl: "closes_exactly ?d bs" by simp_all
    from nb Cons.prems(3) pos have st: "scan_step st b = st\<lparr>skip_until_close := ?d\<rparr>"
      by (simp add: scan_step_skip)
    have "foldl scan_step (st\<lparr>skip_until_close := ?d\<rparr>) bs
            = (st\<lparr>skip_until_close := ?d\<rparr>)\<lparr>skip_until_close := 0\<rparr>"
      using cl Cons.prems(2) pos by (intro Cons.IH) simp_all
    with st show ?thesis by simp
  qed
qed


lemma scan_lines_app:
  "scan_lines (pre @ ls) = foldl scan_step (scan_lines pre) ls"
  by (simp add: scan_lines_def)

lemmas text_eval = str_def sublist_Cons_right prefix_code


lemma marker_line_0: "is_marker_line (str ''{debugLogs.length > 0 && ('')"
  by (simp add: is_marker_line_def text_eval del: sublist_code)

lemma marker_line_5: "is_marker_line (str ''{debugLogs.length > 5 && ('')"
  by (simp add: is_marker_line_def text_eval del: sublist_code)

lemma no_marker_samples:
  "\<not> is_marker_line (str ''<a/>'')" "\<not> is_marker_line (str ''<b/>'')"
  "\<not> is_marker_line (str ''<c/>'')" "\<not> is_marker_line (str ''<p/>'')"
  "\<not> is_marker_line (str '')}'')" "\<not> is_marker_line (str ''<div style={{color: 1}}>'')"
  "\<not> is_marker_line (str ''{open && ('')"
  by (simp_all add: is_marker_line_def text_eval del: sublist_code)

lemma brace_delta_samples:
  "brace_delta (str ''<a/>'') = 0" "brace_delta (str ''<b/>'') = 0"
  "brace_delta (str ''<c/>'') = 0" "brace_delta (str ''<p/>'') = 0"
  "brace_delta (str '')}'') = - 1" "brace_delta (str ''<div style={{color: 1}}>'') = 0"
  "brace_delta (str ''{open && ('') = 1" "brace_delta (str ''{debugLogs.length > 5 && ('') = 1"
  by (simp_all add: brace_delta_def str_def)

text \<open>
  Claim C9. When the fallback scan runs (the text contains \<open>debugLogs.length\<close>), a line
  \<open>m\<close> with a marker phrase starts a block, and the counter \<open>skip_until_close\<close> stays
  above zero after every further line up to the end of the input, then every line from
  \<open>m\<close> to the end of the file is dropped: the result is what the scan kept of the lines
  before \<open>m\<close>.
\<close>

theorem unbalanced_tail_dropped:
  assumes "sublist (str ''debugLogs.length'') content"
    and "split_on 10 content = pre @ m # rest"
    and "is_marker_line m"
    and "\<forall>k\<le>length rest. 0 < skip_until_close (scan_lines (pre @ m # take k rest))"
  shows "fallback content = join_with 10 (new_lines (scan_lines pre))"
proof -
  let ?st = "scan_step (scan_lines pre) m"
  have "\<forall>k\<le>length rest. 0 < skip_until_close (foldl scan_step ?st (take k rest))"
    using assms(4) by (simp add: scan_lines_def)
  then have "new_lines (foldl scan_step ?st rest) = new_lines ?st"
    by (rule foldl_scan_all_skipped)
  also have "\<dots> = new_lines (scan_lines pre)"
    using assms(3) by (simp add: scan_step_marker)
  finally have "new_lines (scan_lines (pre @ m # rest)) = new_lines (scan_lines pre)"
    by (simp add: scan_lines_def)
  with assms(1,2) show ?thesis by (simp add: fallback_def)
qed

lemma split_unclosed:
  "split_on 10 unclosed_text
     = [str ''<a/>''] @ str ''{debugLogs.length > 0 && ('' # [str ''<b/>'', str ''<c/>'']"
  by (simp add: unclosed_text_def str_def)

lemma has_length_unclosed: "sublist (str ''debugLogs.length'') unclosed_text"
  by (simp add: unclosed_text_def text_eval del: sublist_code)

text \<open>The theorem at a text whose block is never closed.\<close>

theorem unbalanced_tail_dropped_witness: "fallback unclosed_text = str ''<a/>''"
proof -
  let ?a = "str ''<a/>''" and ?m = "str ''{debugLogs.length > 0 && (''"
  let ?b = "str ''<b/>''" and ?c = "str ''<c/>''"
  have s0: "scan_lines [?a] = \<lparr>skip_until_close = 0, new_lines = [?a]\<rparr>"
    by (simp add: scan_lines_def scan_step_keep no_marker_samples)
  have p0: "skip_until_close (scan_lines [?a, ?m]) = 1"
    by (simp add: scan_lines_def scan_step_keep scan_step_marker no_marker_samples marker_line_0)
  have p1: "skip_until_close (scan_lines [?a, ?m, ?b]) = 1"
    by (simp add: scan_lines_def scan_step_keep scan_step_marker scan_step_skip
        no_marker_samples marker_line_0 brace_delta_samples)
  have p2: "skip_until_close (scan_lines [?a, ?m, ?b, ?c]) = 1"
    by (simp add: scan_lines_def scan_step_keep scan_step_marker scan_step_skip
        no_marker_samples marker_line_0 brace_delta_samples)
  have pos: "\<forall>k\<le>length [?b, ?c]. 0 < skip_until_close (scan_lines ([?a] @ ?m # take k [?b, ?c]))"
  proof (intro allI impI)
    fix k assume "k \<le> length [?b, ?c]"
    then have "k = 0 \<or> k = 1 \<or> k = 2" by auto
    then show "0 < skip_until_close (scan_lines ([?a] @ ?m # take k [?b, ?c]))"
      using p0 p1 p2 by (elim disjE) simp_all
  qed
  from unbalanced_tail_dropped [OF has_length_unclosed split_unclosed marker_line_0 pos] s0
  show ?thesis by simp
qed

text \<open>
  Blocks without a marker phrase inside. When the fallback scan runs, a line \<open>m\<close> with a
  marker phrase is followed by a block \<open>bs\<close> whose running brace count (one after \<open>m\<close>,
  plus one per opening and minus one per closing brace of each line) is positive until the
  last line of \<open>bs\<close> and zero or below after it, no line of \<open>bs\<close> contains a marker
  phrase itself, and no later line does, then exactly \<open>m\<close> and \<open>bs\<close> are removed: the
  lines after the block are all kept, behind what the scan kept of the lines before \<open>m\<close>.
\<close>

lemma brace_block_removed:
  assumes "sublist (str ''debugLogs.length'') content"
    and "split_on 10 content = pre @ m # bs @ post"
    and "is_marker_line m"
    and "closes_exactly 1 bs"
    and "\<forall>b\<in>set bs. \<not> is_marker_line b"
    and "\<forall>l\<in>set post. \<not> is_marker_line l"
  shows "fallback content = join_with 10 (new_lines (scan_lines pre) @ post)"
proof -
  let ?st = "scan_step (scan_lines pre) m"
  have st: "?st = (scan_lines pre)\<lparr>skip_until_close := 1\<rparr>"
    using assms(3) by (rule scan_step_marker)
  have "foldl scan_step ?st bs = ?st\<lparr>skip_until_close := 0\<rparr>"
    using assms(4,5) by (intro foldl_scan_block) (simp_all add: st)
  then have "foldl scan_step ?st (bs @ post)
               = foldl scan_step ((scan_lines pre)\<lparr>skip_until_close := 0\<rparr>) post"
    by (simp add: st)
  also have "\<dots> = (scan_lines pre)\<lparr>skip_until_close := 0, new_lines := new_lines (scan_lines pre) @ post\<rparr>"
    using assms(6) by (simp add: foldl_scan_no_marker)
  finally have "new_lines (scan_lines (pre @ m # bs @ post)) = new_lines (scan_lines pre) @ post"
    by (simp add: scan_lines_def)
  with assms(1,2) show ?thesis by (simp add: fallback_def)
qed

lemma split_nested_block:
  "split_on 10 nested_block_text
     = [str ''<a/>''] @ str ''{debugLogs.length > 0 && (''
       # [str ''<div style={{color: 1}}>'', str ''{open && ('', str '')}'', str '')}''] @ [str ''<p/>'']"
  by (simp add: nested_block_text_def str_def)

lemma has_length_nested_block: "sublist (str ''debugLogs.length'') nested_block_text"
  by (simp add: nested_block_text_def text_eval del: sublist_code)

text \<open>A block with two levels of braces.\<close>

lemma brace_block_removed_example:
  "fallback nested_block_text = str ''<a/>'' @ [10] @ str ''<p/>''"
proof -
  let ?bs = "[str ''<div style={{color: 1}}>'', str ''{open && ('', str '')}'', str '')}'']"
  have cl: "closes_exactly 1 ?bs" by (simp add: brace_delta_samples)
  have nb: "\<forall>b\<in>set ?bs. \<not> is_marker_line b" by (simp add: no_marker_samples)
  have np: "\<forall>l\<in>set [str ''<p/>'']. \<not> is_marker_line l" by (simp add: no_marker_samples)
  have "scan_lines [str ''<a/>''] = \<lparr>skip_until_close = 0, new_lines = [str ''<a/>'']\<rparr>"
    by (simp add: scan_lines_def scan_step_keep no_marker_samples)
  with brace_block_removed [OF has_length_nested_block split_nested_block marker_line_0 cl nb np]
  show ?thesis by simp
qed

lemma split_nested_marker:
  "split_on 10 nested_marker_text
     = [str ''{debugLogs.length > 0 && ('', str ''{debugLogs.length > 5 && ('', str '')}'',
        str '')}'', str ''<p/>'']"
  by (simp add: nested_marker_text_def str_def)

lemma has_length_nested_marker: "sublist (str ''debugLogs.length'') nested_marker_text"
  by (simp add: nested_marker_text_def text_eval del: sublist_code)

lemma scan_nested_marker:
  "scan_lines [str ''{debugLogs.length > 0 && ('', str ''{debugLogs.length > 5 && ('', str '')}'',
        str '')}'', str ''<p/>'']
     = \<lparr>skip_until_close = 0, new_lines = [str '')}'', str ''<p/>'']\<rparr>"
  by (simp add: scan_lines_def scan_step_marker scan_step_skip scan_step_keep marker_line_0
      marker_line_5 no_marker_samples brace_delta_samples)

lemma fallback_nested_marker: "fallback nested_marker_text = str '')}'' @ [10] @ str ''<p/>''"
  by (simp add: fallback_def has_length_nested_marker split_nested_marker scan_nested_marker)

section \<open>The matcher and the matched texts\<close>

lemma adv_Cons: "adv (Some x) a = adv p (x # a)"
  by (cases a) simp_all

lemma adv_append: "adv p (a @ b) = adv (adv p a) b"
  by (cases a; cases b) simp_all

lemma lang_StarI:
  "(\<forall>x\<in>set a. in_cls c x) \<Longrightarrow> lang r (adv p a) b \<Longrightarrow> lang (Star c # r) p (a @ b)"
  by auto

text \<open>Whatever the matcher finds is a match.\<close>

lemma rmatch_sound: "rmatch r p s = Some t \<Longrightarrow> \<exists>w. s = w @ t \<and> lang r p w"
proof (induction r p s arbitrary: t rule: rmatch.induct)
  case (1 prev s)
  then show ?case by simp
next
  case (2 r prev s)
  then show ?case by (auto split: if_splits)
next
  case (3 c r prev)
  then show ?case by simp
next
  case (4 c r prev x xs)
  then have "x = c" and "rmatch r (Some x) xs = Some t" by (auto split: if_splits)
  with 4(1) obtain w where "xs = w @ t" "lang r (Some x) w" by blast
  with \<open>x = c\<close> have "x # xs = (c # w) @ t \<and> lang (Ch c # r) prev (c # w)" by simp
  then show ?case by blast
next
  case (5 c r prev)
  then obtain w where w: "[] = w @ t" "lang r prev w" by auto
  then have "lang (Star c # r) prev ([] @ w)" by (intro lang_StarI) simp_all
  with w show ?case by auto
next
  case (6 c r prev x xs)
  consider (more) "in_cls c x" "rmatch (Star c # r) (Some x) xs = Some t"
    | (stop) "rmatch r prev (x # xs) = Some t"
      "\<not> in_cls c x \<or> rmatch (Star c # r) (Some x) xs = None"
    using 6(4) by (auto split: if_splits option.splits)
  then show ?case
  proof cases
    case more
    with 6(1) obtain w where w: "xs = w @ t" "lang (Star c # r) (Some x) w" by blast
    then obtain a b where ab: "w = a @ b" "\<forall>y\<in>set a. in_cls c y" "lang r (adv (Some x) a) b"
      by auto
    from ab(3) have "lang r (adv prev (x # a)) b" by (simp only: adv_Cons[symmetric])
    with ab(2) more(1) have "lang (Star c # r) prev ((x # a) @ b)" by (intro lang_StarI) simp_all
    with w ab(1) show ?thesis by auto
  next
    case stop
    then obtain w where w: "x # xs = w @ t" "lang r prev w"
      using 6(2,3) by blast
    then have "lang (Star c # r) prev ([] @ w)" by (intro lang_StarI) simp_all
    with w show ?thesis by auto
  qed
next
  case (7 c r prev)
  then show ?case by simp
next
  case (8 c r prev x xs)
  then have cx: "in_cls c x" and m: "rmatch (Star c # r) (Some x) xs = Some t"
    by (auto split: if_splits)
  with 8(1) obtain w where w: "xs = w @ t" "lang (Star c # r) (Some x) w" by blast
  then obtain a b where ab: "w = a @ b" "\<forall>y\<in>set a. in_cls c y" "lang r (adv (Some x) a) b"
    by auto
  from ab(3) have "lang r (adv prev (x # a)) b" by (simp only: adv_Cons[symmetric])
  with ab(2) cx have "lang (Plus c # r) prev ((x # a) @ b)"
    unfolding lang.simps by (intro exI[of _ "x # a"] exI[of _ b]) simp
  with w ab(1) show ?case by auto
next
  case (9 c r prev)
  then obtain w where w: "[] = w @ t" "lang r prev w" by auto
  then have "lang (LazyStar c # r) prev w"
    unfolding lang.simps by (intro exI[of _ "[]"] exI[of _ w]) simp
  with w show ?case by auto
next
  case (10 c r prev x xs)
  consider (stop) "rmatch r prev (x # xs) = Some t"
    | (more) "rmatch r prev (x # xs) = None" "in_cls c x"
        "rmatch (LazyStar c # r) (Some x) xs = Some t"
    using 10(3) by (auto split: if_splits option.splits)
  then show ?case
  proof cases
    case stop
    with 10(1) obtain w where w: "x # xs = w @ t" "lang r prev w" by blast
    then have "lang (LazyStar c # r) prev w"
      unfolding lang.simps by (intro exI[of _ "[]"] exI[of _ w]) simp
    with w show ?thesis by auto
  next
    case more
    with 10(2) obtain w where w: "xs = w @ t" "lang (LazyStar c # r) (Some x) w" by blast
    then obtain a b where ab: "w = a @ b" "\<forall>y\<in>set a. in_cls c y" "lang r (adv (Some x) a) b"
      by auto
    from ab(3) have "lang r (adv prev (x # a)) b" by (simp only: adv_Cons[symmetric])
    with ab(2) more(2) have "lang (LazyStar c # r) prev ((x # a) @ b)"
      unfolding lang.simps by (intro exI[of _ "x # a"] exI[of _ b]) simp
    with w ab(1) show ?thesis by auto
  qed
qed

text \<open>Where some match exists, the matcher finds one.\<close>

lemma rmatch_Star_skip:
  "rmatch r p s \<noteq> None \<Longrightarrow> rmatch (Star c # r) p s \<noteq> None"
  by (cases s) (auto split: option.splits)

lemma rmatch_Star_run:
  "\<forall>x\<in>set a. in_cls c x \<Longrightarrow> rmatch r (adv p a) (b @ t) \<noteq> None \<Longrightarrow>
   rmatch (Star c # r) p (a @ b @ t) \<noteq> None"
proof (induction a arbitrary: p)
  case Nil
  then show ?case by (simp add: rmatch_Star_skip)
next
  case (Cons x a)
  from Cons.prems(2) have "rmatch r (adv (Some x) a) (b @ t) \<noteq> None"
    using adv_Cons[of x a p] by simp
  with Cons.IH[of "Some x"] Cons.prems(1)
  have "rmatch (Star c # r) (Some x) (a @ b @ t) \<noteq> None" by simp
  with Cons.prems(1) show ?case by (auto split: option.splits)
qed

lemma rmatch_LazyStar_run:
  "\<forall>x\<in>set a. in_cls c x \<Longrightarrow> rmatch r (adv p a) (b @ t) \<noteq> None \<Longrightarrow>
   rmatch (LazyStar c # r) p (a @ b @ t) \<noteq> None"
proof (induction a arbitrary: p)
  case Nil
  then show ?case by (cases "b @ t") (auto split: option.splits)
next
  case (Cons x a)
  from Cons.prems(2) have "rmatch r (adv (Some x) a) (b @ t) \<noteq> None"
    using adv_Cons[of x a p] by simp
  with Cons.IH[of "Some x"] Cons.prems(1)
  have "rmatch (LazyStar c # r) (Some x) (a @ b @ t) \<noteq> None" by simp
  with Cons.prems(1) show ?case by (auto split: option.splits)
qed

lemma rmatch_complete: "lang r p w \<Longrightarrow> rmatch r p (w @ t) \<noteq> None"
proof (induction r arbitrary: p w)
  case Nil
  then show ?case by simp
next
  case (Cons i r)
  show ?case
  proof (cases i)
    case Bol
    with Cons show ?thesis by auto
  next
    case (Ch c)
    with Cons show ?thesis by auto
  next
    case (Star c)
    with Cons.prems obtain a b where ab: "w = a @ b" "\<forall>x\<in>set a. in_cls c x" "lang r (adv p a) b"
      by auto
    from Cons.IH[OF ab(3)] have "rmatch r (adv p a) (b @ t) \<noteq> None" .
    with ab(2) have "rmatch (Star c # r) p (a @ b @ t) \<noteq> None" by (rule rmatch_Star_run)
    with ab(1) Star show ?thesis by simp
  next
    case (Plus c)
    with Cons.prems obtain a b where ab: "w = a @ b" "a \<noteq> []" "\<forall>x\<in>set a. in_cls c x"
      "lang r (adv p a) b"
      by auto
    from ab(2) obtain x a' where a: "a = x # a'" by (cases a) auto
    from Cons.IH[OF ab(4)] have "rmatch r (adv (Some x) a') (b @ t) \<noteq> None"
      unfolding a using adv_Cons[of x a' p] by simp
    with ab(3) a have "rmatch (Star c # r) (Some x) (a' @ b @ t) \<noteq> None"
      by (intro rmatch_Star_run) simp_all
    with ab(1,3) a Plus show ?thesis by simp
  next
    case (LazyStar c)
    with Cons.prems obtain a b where ab: "w = a @ b" "\<forall>x\<in>set a. in_cls c x" "lang r (adv p a) b"
      by auto
    from Cons.IH[OF ab(3)] have "rmatch r (adv p a) (b @ t) \<noteq> None" .
    with ab(2) have "rmatch (LazyStar c # r) p (a @ b @ t) \<noteq> None" by (rule rmatch_LazyStar_run)
    with ab(1) LazyStar show ?thesis by simp
  qed
qed

lemma lang_append:
  "lang (r1 @ r2) p w \<longleftrightarrow> (\<exists>u v. w = u @ v \<and> lang r1 p u \<and> lang r2 (adv p u) v)"
proof (induction r1 arbitrary: p w)
  case Nil
  then show ?case by simp
next
  case (Cons i r1)
  show ?case
  proof (cases i)
    case Bol
    with Cons show ?thesis by auto
  next
    case (Ch c)
    show ?thesis
    proof
      assume "lang ((i # r1) @ r2) p w"
      with Ch Cons obtain v u' v' where "w = c # v" "v = u' @ v'" "lang r1 (Some c) u'"
        "lang r2 (adv (Some c) u') v'" by auto
      then have "w = (c # u') @ v' \<and> lang (Ch c # r1) p (c # u') \<and> lang r2 (adv p (c # u')) v'"
        by (simp add: adv_Cons[of c u' p, symmetric] del: adv.simps)
      with Ch show "\<exists>u v. w = u @ v \<and> lang (i # r1) p u \<and> lang r2 (adv p u) v" by blast
    next
      assume "\<exists>u v. w = u @ v \<and> lang (i # r1) p u \<and> lang r2 (adv p u) v"
      with Ch obtain u' v where "w = (c # u') @ v" "lang r1 (Some c) u'" "lang r2 (adv p (c # u')) v"
        by auto
      then have "w = c # (u' @ v)" "lang r1 (Some c) u'" "lang r2 (adv (Some c) u') v"
        by (simp_all add: adv_Cons[of c u' p] del: adv.simps)
      with Cons.IH[of "Some c" "u' @ v"] Ch show "lang ((i # r1) @ r2) p w" by auto
    qed
  next
    case (Star c)
    show ?thesis
    proof
      assume "lang ((i # r1) @ r2) p w"
      with Star Cons obtain a u' v' where "w = a @ u' @ v'" "\<forall>x\<in>set a. in_cls c x"
        "lang r1 (adv p a) u'" "lang r2 (adv (adv p a) u') v'" by auto
      then have "w = (a @ u') @ v' \<and> lang (Star c # r1) p (a @ u') \<and> lang r2 (adv p (a @ u')) v'"
        by (auto simp: adv_append)
      with Star show "\<exists>u v. w = u @ v \<and> lang (i # r1) p u \<and> lang r2 (adv p u) v" by blast
    next
      assume "\<exists>u v. w = u @ v \<and> lang (i # r1) p u \<and> lang r2 (adv p u) v"
      with Star obtain a u' v where "w = (a @ u') @ v" "\<forall>x\<in>set a. in_cls c x"
        "lang r1 (adv p a) u'" "lang r2 (adv p (a @ u')) v" by auto
      then have "w = a @ (u' @ v)" "\<forall>x\<in>set a. in_cls c x"
        "\<exists>u v'. u' @ v = u @ v' \<and> lang r1 (adv p a) u \<and> lang r2 (adv (adv p a) u) v'"
        by (auto simp: adv_append)
      with Cons.IH[of "adv p a" "u' @ v"] Star show "lang ((i # r1) @ r2) p w" by auto
    qed
  next
    case (Plus c)
    show ?thesis
    proof
      assume "lang ((i # r1) @ r2) p w"
      with Plus Cons obtain a u' v' where "w = a @ u' @ v'" "a \<noteq> []" "\<forall>x\<in>set a. in_cls c x"
        "lang r1 (adv p a) u'" "lang r2 (adv (adv p a) u') v'" by auto
      then have "w = (a @ u') @ v' \<and> lang (Plus c # r1) p (a @ u') \<and> lang r2 (adv p (a @ u')) v'"
        by (auto simp: adv_append)
      with Plus show "\<exists>u v. w = u @ v \<and> lang (i # r1) p u \<and> lang r2 (adv p u) v" by blast
    next
      assume "\<exists>u v. w = u @ v \<and> lang (i # r1) p u \<and> lang r2 (adv p u) v"
      with Plus obtain a u' v where "w = (a @ u') @ v" "a \<noteq> []" "\<forall>x\<in>set a. in_cls c x"
        "lang r1 (adv p a) u'" "lang r2 (adv p (a @ u')) v" by auto
      then have "w = a @ (u' @ v)" "a \<noteq> []" "\<forall>x\<in>set a. in_cls c x"
        "\<exists>u v'. u' @ v = u @ v' \<and> lang r1 (adv p a) u \<and> lang r2 (adv (adv p a) u) v'"
        by (auto simp: adv_append)
      with Cons.IH[of "adv p a" "u' @ v"] Plus show "lang ((i # r1) @ r2) p w" by auto
    qed
  next
    case (LazyStar c)
    show ?thesis
    proof
      assume "lang ((i # r1) @ r2) p w"
      with LazyStar Cons obtain a u' v' where "w = a @ u' @ v'" "\<forall>x\<in>set a. in_cls c x"
        "lang r1 (adv p a) u'" "lang r2 (adv (adv p a) u') v'" by auto
      then have "w = (a @ u') @ v' \<and> lang (LazyStar c # r1) p (a @ u') \<and> lang r2 (adv p (a @ u')) v'"
        by (auto simp: adv_append)
      with LazyStar show "\<exists>u v. w = u @ v \<and> lang (i # r1) p u \<and> lang r2 (adv p u) v" by blast
    next
      assume "\<exists>u v. w = u @ v \<and> lang (i # r1) p u \<and> lang r2 (adv p u) v"
      with LazyStar obtain a u' v where "w = (a @ u') @ v" "\<forall>x\<in>set a. in_cls c x"
        "lang r1 (adv p a) u'" "lang r2 (adv p (a @ u')) v" by auto
      then have "w = a @ (u' @ v)" "\<forall>x\<in>set a. in_cls c x"
        "\<exists>u v'. u' @ v = u @ v' \<and> lang r1 (adv p a) u \<and> lang r2 (adv (adv p a) u) v'"
        by (auto simp: adv_append)
      with Cons.IH[of "adv p a" "u' @ v"] LazyStar show "lang ((i # r1) @ r2) p w" by auto
    qed
  qed
qed

lemma lang_lit: "lang (lit l) p w \<longleftrightarrow> w = l"
  unfolding lit_def by (induction l arbitrary: p w) auto

section \<open>Rules whose anchor is missing\<close>

lemma adv_snoc: "adv p (u @ [x]) = Some x"
  by (cases u) simp_all

lemma re_sub_no_match_from:
  "\<not> matches_in pat (u @ s) \<Longrightarrow> re_sub pat repl (adv None u) s = s"
proof (induction s arbitrary: u)
  case Nil
  have "rmatch pat (adv None u) [] = None"
  proof (rule ccontr)
    assume "rmatch pat (adv None u) [] \<noteq> None"
    then obtain t where "rmatch pat (adv None u) [] = Some t" by auto
    from rmatch_sound[OF this] obtain w where "[] = w @ t" "lang pat (adv None u) w" by blast
    then have "u @ [] = u @ w @ [] \<and> lang pat (adv None u) w" by simp
    with Nil show False unfolding matches_in_def by blast
  qed
  then show ?case by simp
next
  case (Cons x xs)
  have none: "rmatch pat (adv None u) (x # xs) = None"
  proof (rule ccontr)
    assume "rmatch pat (adv None u) (x # xs) \<noteq> None"
    then obtain t where "rmatch pat (adv None u) (x # xs) = Some t" by auto
    from rmatch_sound[OF this] obtain w where "x # xs = w @ t" "lang pat (adv None u) w" by blast
    then have "u @ x # xs = u @ w @ t \<and> lang pat (adv None u) w" by simp
    with Cons.prems show False unfolding matches_in_def by blast
  qed
  from Cons.prems have "\<not> matches_in pat ((u @ [x]) @ xs)" by simp
  from Cons.IH[OF this] have "re_sub pat repl (Some x) xs = xs" by (simp add: adv_snoc)
  with none show ?case by (simp add: re_sub_None)
qed

lemma re_sub_no_match: "\<not> matches_in pat s \<Longrightarrow> re_sub pat repl None s = s"
  using re_sub_no_match_from[of pat "[]" s repl] by simp

lemma func_pattern_split:
  "func_pattern = lit (str ''const addDebugLog = (msg: string) => {'')
     @ ([Plus (Not 125), Ch 10, Plus Space] @ lit (str ''console.log(msg)'') @ [Ch 10, Plus Space, Ch 125])"
  by (simp add: func_pattern_def)

lemma func_match_prefix:
  "lang func_pattern p w \<Longrightarrow> prefix (str ''const addDebugLog = (msg: string) => {'') w"
  unfolding func_pattern_split lang_append lang_lit by auto

lemma func_match_has_literal:
  assumes "matches_in func_pattern c"
  shows "sublist (str ''const addDebugLog = (msg: string) => {'') c"
proof -
  from assms obtain u w v where c: "c = u @ w @ v" and l: "lang func_pattern (adv None u) w"
    unfolding matches_in_def by blast
  from func_match_prefix[OF l] obtain w' where "w = str ''const addDebugLog = (msg: string) => {'' @ w'"
    by (auto simp: prefix_def)
  with c show ?thesis unfolding sublist_def by (intro exI[of _ u] exI[of _ "w' @ v"]) simp
qed

text \<open>
  Claim C6. A rule whose anchor does not occur in the text leaves the text as it is: for
  rule 1 the pattern matches nowhere, for rules 2 to 5 the literal anchor is not a part of
  the text. The rules are total functions on texts, as \<open>in\<close>, \<open>re.sub\<close> and
  \<open>str.replace\<close> raise nothing on a \<open>str\<close>; a missing anchor is a silent no-op.
\<close>

theorem silent_skip_on_missing_anchor:
  "(\<not> matches_in func_pattern c \<longrightarrow> rule1 c = c)
   \<and> (\<not> sublist anchor2 c \<longrightarrow> rule2 c = c)
   \<and> (\<not> sublist anchor3 c \<longrightarrow> rule3 c = c)
   \<and> (\<not> sublist anchor4 c \<longrightarrow> rule4 c = c)
   \<and> (\<not> sublist anchor5 c \<longrightarrow> rule5 c = c)"
  by (simp add: rule1_def rule2_def rule3_def rule4_def rule5_def re_sub_no_match
      replace_all_absent)

lemma plain_text_no_anchor:
  "\<not> sublist (str ''const addDebugLog = (msg: string) => {'') plain_text"
  "\<not> sublist anchor2 plain_text" "\<not> sublist anchor3 plain_text"
  "\<not> sublist anchor4 plain_text" "\<not> sublist anchor5 plain_text"
  by (simp_all add: plain_text_def anchor2_def anchor3_def anchor4_def anchor5_def text_eval
      del: sublist_code)

text \<open>The theorem at a text without any of the five anchors.\<close>

theorem silent_skip_on_missing_anchor_witness:
  "rule1 plain_text = plain_text \<and> rule2 plain_text = plain_text \<and> rule3 plain_text = plain_text
   \<and> rule4 plain_text = plain_text \<and> rule5 plain_text = plain_text
   \<and> patch plain_text = plain_text"
proof -
  have "\<not> matches_in func_pattern plain_text"
    using func_match_has_literal plain_text_no_anchor(1) by blast
  with silent_skip_on_missing_anchor[of plain_text] plain_text_no_anchor
  show ?thesis by (simp add: patch_def)
qed

section \<open>Where the rules insert\<close>

lemma no_earlier_start:
  assumes "\<not> sublist old (u @ butlast old)" and "u = u1 @ u2" and "u2 \<noteq> []"
  shows "\<not> prefix old (u2 @ old @ v)"
proof
  assume "prefix old (u2 @ old @ v)"
  then obtain r where r: "u2 @ old @ v = old @ r" by (auto simp: prefix_def)
  have ne: "old \<noteq> []" using assms(1) by auto
  have "length old \<le> length (u2 @ butlast old)" using assms(3) ne
    by (cases u2) simp_all
  moreover have "u2 @ old @ v = (u2 @ butlast old) @ (last old # v)" using ne by simp
  ultimately have "prefix old (u2 @ butlast old)"
    using r by (metis prefix_def prefix_length_prefix append.assoc)
  then obtain q where "u2 @ butlast old = old @ q" by (auto simp: prefix_def)
  then have "u @ butlast old = u1 @ old @ q" using assms(2) by simp
  then have "sublist old (u @ butlast old)" unfolding sublist_def by blast
  with assms(1) show False by simp
qed

lemma replace_all_first_gen:
  "old \<noteq> [] \<Longrightarrow> (\<And>u1 u2. u = u1 @ u2 \<Longrightarrow> u2 \<noteq> [] \<Longrightarrow> \<not> prefix old (u2 @ old @ v)) \<Longrightarrow>
   replace_all old new (u @ old @ v) = u @ new @ replace_all old new v"
proof (induction u)
  case Nil
  then show ?case by (simp add: replace_all_prefix)
next
  case (Cons x u)
  from Cons.prems(2)[of "[]" "x # u"] have np: "\<not> prefix old (x # (u @ old @ v))" by simp
  have "replace_all old new (u @ old @ v) = u @ new @ replace_all old new v"
  proof (rule Cons.IH[OF Cons.prems(1)])
    fix u1 u2 assume "u = u1 @ u2" "u2 \<noteq> []"
    then show "\<not> prefix old (u2 @ old @ v)" using Cons.prems(2)[of "x # u1" u2] by simp
  qed
  with np show ?case by (simp add: replace_all_step)
qed

lemma replace_all_first:
  assumes "\<not> sublist old (u @ butlast old)"
  shows "replace_all old new (u @ old @ v) = u @ new @ replace_all old new v"
proof -
  have ne: "old \<noteq> []" using assms by auto
  show ?thesis by (rule replace_all_first_gen[OF ne]) (rule no_earlier_start[OF assms])
qed

lemma re_sub_first:
  "(\<And>u1 u2. u = u1 @ u2 \<Longrightarrow> u2 \<noteq> [] \<Longrightarrow> rmatch pat (adv p u1) (u2 @ w @ v) = None) \<Longrightarrow>
   rmatch pat (adv p u) (w @ v) = Some v \<Longrightarrow> w \<noteq> [] \<Longrightarrow>
   re_sub pat repl p (u @ w @ v) = u @ repl w @ re_sub pat repl (Some (last w)) v"
proof (induction u arbitrary: p)
  case Nil
  then show ?case by (simp add: re_sub_Some)
next
  case (Cons x u)
  from Cons.prems(1)[of "[]" "x # u"] have none: "rmatch pat p (x # (u @ w @ v)) = None" by simp
  have "re_sub pat repl (Some x) (u @ w @ v) = u @ repl w @ re_sub pat repl (Some (last w)) v"
  proof (rule Cons.IH)
    fix u1 u2 assume "u = u1 @ u2" "u2 \<noteq> []"
    with Cons.prems(1)[of "x # u1" u2] show "rmatch pat (adv (Some x) u1) (u2 @ w @ v) = None"
      by (simp add: adv_Cons[of x u1 p] del: adv.simps)
  next
    from Cons.prems(2) show "rmatch pat (adv (Some x) u) (w @ v) = Some v"
      by (simp add: adv_Cons[of x u p] del: adv.simps)
  qed (rule Cons.prems(3))
  with none show ?case by (simp add: re_sub_None)
qed

lemma func_pattern_consumes:
  assumes "rmatch func_pattern p (w @ v) = Some v"
  shows "w \<noteq> []"
proof -
  from rmatch_sound[OF assms] obtain w' where w: "w @ v = w' @ v" "lang func_pattern p w'" by blast
  from func_match_prefix[OF w(2)] have "w' \<noteq> []" by (auto simp: str_def)
  with w(1) show ?thesis by simp
qed

text \<open>
  Claim C7, as amended. For a rule whose detection marker is absent, the inserted text is
  put behind the first occurrence of the anchor, and the rest of the text is treated in the
  same way: \<open>str.replace\<close> and \<open>re.sub\<close> go on behind the occurrence, so that every
  further non-overlapping occurrence gets the inserted text too. Here \<open>u\<close> is the text
  before the first occurrence (no match of rule 1 starts in it, no occurrence of the literal
  anchor of rules 2 to 5 starts in it) and \<open>v\<close> the text behind it.
\<close>

theorem insertion_at_every_occurrence:
  "(\<not> sublist mount_marker (u @ w @ v)
      \<and> (\<forall>u1 u2. u = u1 @ u2 \<and> u2 \<noteq> [] \<longrightarrow> rmatch func_pattern (adv None u1) (u2 @ w @ v) = None)
      \<and> rmatch func_pattern (adv None u) (w @ v) = Some v
    \<longrightarrow> rule1 (u @ w @ v)
          = u @ w @ mount_log @ re_sub func_pattern (\<lambda>m. m @ mount_log) (Some (last w)) v)
   \<and> (\<not> sublist marker2 (u @ anchor2 @ v) \<and> \<not> sublist anchor2 (u @ butlast anchor2)
    \<longrightarrow> rule2 (u @ anchor2 @ v)
          = u @ anchor2 @ insert2 @ replace_all anchor2 (anchor2 @ insert2) v)
   \<and> (\<not> sublist marker3 (u @ anchor3 @ v) \<and> \<not> sublist anchor3 (u @ butlast anchor3)
    \<longrightarrow> rule3 (u @ anchor3 @ v)
          = u @ anchor3 @ insert3 @ replace_all anchor3 (anchor3 @ insert3) v)
   \<and> (\<not> sublist marker4 (u @ anchor4 @ v) \<and> \<not> sublist anchor4 (u @ butlast anchor4)
    \<longrightarrow> rule4 (u @ anchor4 @ v)
          = u @ anchor4 @ insert4 @ replace_all anchor4 (anchor4 @ insert4) v)
   \<and> (\<not> sublist marker5 (u @ anchor5 @ v) \<and> \<not> sublist anchor5 (u @ butlast anchor5)
    \<longrightarrow> rule5 (u @ anchor5 @ v)
          = u @ anchor5 @ insert5 @ replace_all anchor5 (anchor5 @ insert5) v)"
proof (intro conjI impI)
  assume a: "\<not> sublist mount_marker (u @ w @ v)
      \<and> (\<forall>u1 u2. u = u1 @ u2 \<and> u2 \<noteq> [] \<longrightarrow> rmatch func_pattern (adv None u1) (u2 @ w @ v) = None)
      \<and> rmatch func_pattern (adv None u) (w @ v) = Some v"
  then have "w \<noteq> []" using func_pattern_consumes by blast
  with a have "re_sub func_pattern (\<lambda>m. m @ mount_log) None (u @ w @ v)
      = u @ (w @ mount_log) @ re_sub func_pattern (\<lambda>m. m @ mount_log) (Some (last w)) v"
    by (intro re_sub_first) auto
  with a show "rule1 (u @ w @ v)
          = u @ w @ mount_log @ re_sub func_pattern (\<lambda>m. m @ mount_log) (Some (last w)) v"
    by (simp add: rule1_def)
qed (simp_all add: rule2_def rule3_def rule4_def rule5_def replace_all_first)

lemma func_pattern_items:
  "func_pattern = map Ch (str ''const addDebugLog = (msg: string) => {'')
     @ [Plus (Not 125), Ch 10, Plus Space] @ map Ch (str ''console.log(msg)'')
     @ [Ch 10, Plus Space, Ch 125]"
  by (simp add: func_pattern_def lit_def)

lemma func_text_match: "rmatch func_pattern p (func_text @ [10]) = Some [10]"
  by (simp add: func_pattern_items func_text_def str_def is_space_def)

lemma func_text_no_earlier:
  "\<forall>u1 u2. str ''  '' = u1 @ u2 \<and> u2 \<noteq> [] \<longrightarrow>
     rmatch func_pattern (adv None u1) (u2 @ func_text @ [10]) = None"
proof (intro allI impI)
  fix u1 u2 assume "str ''  '' = u1 @ u2 \<and> u2 \<noteq> []"
  then obtain x r where "u2 = x # r" "x = 32" by (cases u2) (auto simp: str_def Cons_eq_append_conv)
  then show "rmatch func_pattern (adv None u1) (u2 @ func_text @ [10]) = None"
    by (simp add: func_pattern_items str_def)
qed

lemma rule1_sample_no_marker: "\<not> sublist mount_marker (str ''  '' @ func_text @ [10])"
  by (simp add: mount_marker_def func_text_def text_eval del: sublist_code)

lemma rule2_sample:
  "\<not> sublist marker2 (str ''  '' @ anchor2 @ [10])" "\<not> sublist anchor2 (str ''  '' @ butlast anchor2)"
  by (simp_all add: marker2_def anchor2_def text_eval del: sublist_code)

lemma rule3_sample:
  "\<not> sublist marker3 (str ''  '' @ anchor3 @ [10])" "\<not> sublist anchor3 (str ''  '' @ butlast anchor3)"
  by (simp_all add: marker3_def anchor3_def text_eval del: sublist_code)

lemma rule4_sample:
  "\<not> sublist marker4 (str ''  '' @ anchor4 @ [10])" "\<not> sublist anchor4 (str ''  '' @ butlast anchor4)"
  by (simp_all add: marker4_def anchor4_def text_eval del: sublist_code)

lemma rule5_sample:
  "\<not> sublist marker5 (str ''  '' @ anchor5 @ [10])" "\<not> sublist anchor5 (str ''  '' @ butlast anchor5)"
  by (simp_all add: marker5_def anchor5_def text_eval del: sublist_code)

lemma anchors_start:
  "\<not> prefix anchor2 (10 # r)" "\<not> prefix anchor3 (10 # r)" "\<not> prefix anchor4 (10 # r)"
  "\<not> prefix anchor5 (10 # r)"
  by (simp_all add: anchor2_def anchor3_def anchor4_def anchor5_def str_def)

lemma anchors_nonempty: "anchor2 \<noteq> []" "anchor3 \<noteq> []" "anchor4 \<noteq> []" "anchor5 \<noteq> []"
  by (simp_all add: anchor2_def anchor3_def anchor4_def anchor5_def str_def)

lemma replace_all_newline:
  "replace_all anchor2 new [10] = [10]" "replace_all anchor3 new [10] = [10]"
  "replace_all anchor4 new [10] = [10]" "replace_all anchor5 new [10] = [10]"
  by (simp_all add: replace_all_step anchors_start anchors_nonempty)

text \<open>The theorem at texts with one occurrence of the anchor of each rule.\<close>

theorem insertion_at_every_occurrence_witness:
  "rule1 (str ''  '' @ func_text @ [10]) = str ''  '' @ func_text @ mount_log @ [10]
   \<and> rule2 (str ''  '' @ anchor2 @ [10]) = str ''  '' @ anchor2 @ insert2 @ [10]
   \<and> rule3 (str ''  '' @ anchor3 @ [10]) = str ''  '' @ anchor3 @ insert3 @ [10]
   \<and> rule4 (str ''  '' @ anchor4 @ [10]) = str ''  '' @ anchor4 @ insert4 @ [10]
   \<and> rule5 (str ''  '' @ anchor5 @ [10]) = str ''  '' @ anchor5 @ insert5 @ [10]"
proof -
  have r: "re_sub func_pattern (\<lambda>m. m @ mount_log) (Some (last func_text)) [10] = [10]"
    by (simp add: re_sub_None func_pattern_items str_def)
  from insertion_at_every_occurrence [of "str ''  ''" func_text "[10]"]
  show ?thesis
    by (simp add: rule1_sample_no_marker func_text_no_earlier func_text_match r
        rule2_sample rule3_sample rule4_sample rule5_sample replace_all_newline)
qed

lemma double_anchor_no_marker: "\<not> sublist marker2 (anchor2 @ [10] @ anchor2)"
  by (simp add: marker2_def anchor2_def text_eval del: sublist_code)

text \<open>
  Claim C7 as stated fails on a text with two occurrences of an anchor: rule 2 inserts its
  line behind both of them, not behind the first one only.
\<close>

theorem insertion_first_only_counterexample:
  "\<not> sublist marker2 (anchor2 @ [10] @ anchor2)
   \<and> rule2 (anchor2 @ [10] @ anchor2) = anchor2 @ insert2 @ [10] @ anchor2 @ insert2
   \<and> rule2 (anchor2 @ [10] @ anchor2) \<noteq> anchor2 @ insert2 @ [10] @ anchor2"
proof -
  have "replace_all anchor2 (anchor2 @ insert2) (anchor2 @ [10] @ anchor2)
          = (anchor2 @ insert2) @ replace_all anchor2 (anchor2 @ insert2) ([10] @ anchor2)"
    by (rule replace_all_prefix) (rule anchors_nonempty)
  also have "replace_all anchor2 (anchor2 @ insert2) ([10] @ anchor2)
          = 10 # replace_all anchor2 (anchor2 @ insert2) (anchor2 @ [])"
    by (simp add: replace_all_step anchors_start)
  also have "replace_all anchor2 (anchor2 @ insert2) (anchor2 @ [])
          = (anchor2 @ insert2) @ replace_all anchor2 (anchor2 @ insert2) []"
    by (rule replace_all_prefix) (rule anchors_nonempty)
  finally have "rule2 (anchor2 @ [10] @ anchor2) = anchor2 @ insert2 @ [10] @ anchor2 @ insert2"
    using double_anchor_no_marker by (simp add: rule2_def anchors_nonempty)
  moreover have "insert2 \<noteq> []" by (simp add: insert2_def)
  ultimately show ?thesis using double_anchor_no_marker by simp
qed

section \<open>Patching and unpatching the function that the lifecycle block follows\<close>

lemma line_pattern_items:
  "line_pattern = [Bol, Star Space] @ map Ch (str ''addDebugLog('') @ [Plus (Not 41), Ch 41, Star Space, Ch 10]"
  by (simp add: line_pattern_def lit_def)

lemma display_pattern_items:
  "debug_display_pattern =
     [Star Space] @ map Ch (str ''{/* Debug Log Display (iPad'' @ [29992] @ str '') */}'')
     @ [LazyStar Any] @ map Ch (str ''{debugLogs.map((log, i) => ('')
     @ [LazyStar Any, Ch 10, Star Space] @ map Ch (str ''))}'')
     @ [Star Space] @ map Ch (str ''</div>'')
     @ [Star Space] @ map Ch (str '')}'')
     @ [Star Space, Ch 10]"
  by (simp add: debug_display_pattern_def lit_def)

lemma rule_absent:
  "\<not> sublist anchor2 c \<Longrightarrow> rule2 c = c" "\<not> sublist anchor3 c \<Longrightarrow> rule3 c = c"
  "\<not> sublist anchor4 c \<Longrightarrow> rule4 c = c" "\<not> sublist anchor5 c \<Longrightarrow> rule5 c = c"
  by (simp_all add: rule2_def rule3_def rule4_def rule5_def replace_all_absent)

lemma func_text_no_mount_marker: "\<not> sublist mount_marker (func_text @ [10])"
  by (simp add: mount_marker_def func_text_def text_eval del: sublist_code)

lemma rule1_func_text: "rule1 (func_text @ [10]) = func_text @ mount_log @ [10]"
proof -
  have ne: "func_text \<noteq> []" by (simp add: func_text_def str_def)
  have "re_sub func_pattern (\<lambda>m. m @ mount_log) (Some (last func_text)) [10] = [10]"
    by (simp add: re_sub_None func_pattern_items str_def)
  with re_sub_Some[OF func_text_match ne, of "\<lambda>m. m @ mount_log"] func_text_no_mount_marker
  show ?thesis by (simp add: rule1_def)
qed

lemma mounted_no_anchor:
  "\<not> sublist anchor2 (func_text @ mount_log @ [10])"
  "\<not> sublist anchor3 (func_text @ mount_log @ [10])"
  "\<not> sublist anchor4 (func_text @ mount_log @ [10])"
  "\<not> sublist anchor5 (func_text @ mount_log @ [10])"
  by (simp_all add: func_text_def mount_log_def anchor2_def anchor3_def anchor4_def anchor5_def
      text_eval del: sublist_code)

lemma patch_func_text: "patch (func_text @ [10]) = func_text @ mount_log @ [10]"
  by (simp add: patch_def rule1_func_text rule_absent mounted_no_anchor)

lemma remove_calls_mounted:
  "remove_calls (func_text @ mount_log @ [10]) = func_text @ mount_rest @ [10]"
  by (simp add: remove_calls_def line_pattern_items func_text_def mount_log_def mount_rest_def
      str_def is_space_def re_sub.simps Let_def)

lemma remove_display_mounted:
  "remove_display (func_text @ mount_rest @ [10]) = func_text @ mount_rest @ [10]"
  by (simp add: remove_display_def display_pattern_items func_text_def mount_rest_def
      str_def is_space_def re_sub.simps Let_def)

lemma fallback_mounted:
  "fallback (func_text @ mount_rest @ [10]) = func_text @ mount_rest @ [10]"
proof -
  have "\<not> sublist (str ''debugLogs.length'') (func_text @ mount_rest @ [10])"
    by (simp add: func_text_def mount_rest_def text_eval del: sublist_code)
  then show ?thesis by (simp add: fallback_def)
qed

text \<open>
  Claim C3 says that no \<open>addDebugLog\<close> call inserted by the Patcher is left after the
  Unpatcher. The line pattern of the Unpatcher needs the call at the start of its line, and
  the second call of the lifecycle block stands behind \<open>return () =>\<close>: on the function
  definition that rule 1 looks for, patching and then unpatching leaves that call, and the
  block around it, in the text.
\<close>

theorem unmount_call_survives:
  "unpatch (patch (func_text @ [10])) = func_text @ mount_rest @ [10]
   \<and> sublist (str ''addDebugLog('' @ [39, 128128] @ str '' PDFPane Unmounted'' @ [39] @ str '')'')
        (unpatch (patch (func_text @ [10])))"
proof -
  have u: "unpatch (patch (func_text @ [10])) = func_text @ mount_rest @ [10]"
    by (simp add: unpatch_def patch_func_text remove_calls_mounted remove_display_mounted
        fallback_mounted)
  have "sublist (str ''addDebugLog('' @ [39, 128128] @ str '' PDFPane Unmounted'' @ [39] @ str '')'')
          mount_rest"
    unfolding mount_rest_def sublist_def
    by (rule exI[of _ "[10] @ str ''    // '' @ [12510, 12454, 12531, 12488, 30906, 35469, 29992, 10]
          @ str ''    useEffect(() => {'' @ [10] @ str ''        return () => ''"],
        rule exI[of _ "[10] @ str ''    }, [])'' @ [10]"]) (simp add: str_def)
  then have "sublist (str ''addDebugLog('' @ [39, 128128] @ str '' PDFPane Unmounted'' @ [39] @ str '')'')
          (func_text @ mount_rest @ [10])"
    by (meson sublist_appendI sublist_order.order.trans)
  with u show ?thesis by simp
qed

section \<open>Texts without injected statements\<close>

lemma line_pattern_split:
  "line_pattern = Bol # Star Space # (lit (str ''addDebugLog('') @ [Plus (Not 41), Ch 41, Star Space, Ch 10])"
  by (simp add: line_pattern_def)

lemma lang_ws_newline:
  "lang [Star Space, Ch 10] q v \<longleftrightarrow> (\<exists>ws'. v = ws' @ [10] \<and> (\<forall>x\<in>set ws'. is_space x))"
  by auto

lemma lang_line_tail:
  "lang [Plus (Not 41), Ch 41, Star Space, Ch 10] q v \<longleftrightarrow>
     (\<exists>body ws'. v = body @ [41] @ ws' @ [10] \<and> body \<noteq> [] \<and> 41 \<notin> set body
        \<and> (\<forall>x\<in>set ws'. is_space x))"
proof -
  have "lang [Plus (Not 41), Ch 41, Star Space, Ch 10] q v \<longleftrightarrow>
     (\<exists>a b. v = a @ b \<and> a \<noteq> [] \<and> (\<forall>x\<in>set a. x \<noteq> 41)
        \<and> (\<exists>u. b = 41 # u \<and> lang [Star Space, Ch 10] (Some 41) u))"
    by simp
  also have "\<dots> \<longleftrightarrow> (\<exists>body ws'. v = body @ [41] @ ws' @ [10] \<and> body \<noteq> [] \<and> 41 \<notin> set body
        \<and> (\<forall>x\<in>set ws'. is_space x))"
    unfolding lang_ws_newline by (simp, blast)
  finally show ?thesis .
qed

lemma lang_line_pattern:
  "lang line_pattern p w \<longleftrightarrow> (p = None \<or> p = Some 10) \<and> call_shape w"
proof -
  have "lang line_pattern p w \<longleftrightarrow> (p = None \<or> p = Some 10)
     \<and> (\<exists>a b. w = a @ b \<and> (\<forall>x\<in>set a. is_space x)
          \<and> lang (lit (str ''addDebugLog('') @ [Plus (Not 41), Ch 41, Star Space, Ch 10]) (adv p a) b)"
    unfolding line_pattern_split by simp
  also have "\<dots> \<longleftrightarrow> (p = None \<or> p = Some 10)
     \<and> (\<exists>a b. w = a @ b \<and> (\<forall>x\<in>set a. is_space x)
          \<and> (\<exists>v. b = str ''addDebugLog('' @ v \<and>
                (\<exists>body ws'. v = body @ [41] @ ws' @ [10] \<and> body \<noteq> [] \<and> 41 \<notin> set body
                    \<and> (\<forall>x\<in>set ws'. is_space x))))"
    unfolding lang_append lang_lit lang_line_tail by simp
  also have "\<dots> \<longleftrightarrow> (p = None \<or> p = Some 10) \<and> call_shape w"
    unfolding call_shape_def by blast
  finally show ?thesis .
qed


lemma no_call_shape_no_match:
  assumes "\<not> has_call_shape s"
  shows "\<not> matches_in line_pattern s"
proof
  assume "matches_in line_pattern s"
  then obtain u w v where s: "s = u @ w @ v" and l: "lang line_pattern (adv None u) w"
    unfolding matches_in_def by blast
  from l have b: "adv None u = None \<or> adv None u = Some 10" and c: "call_shape w"
    by (simp_all add: lang_line_pattern)
  from b have "u = [] \<or> last u = 10" by (cases u) auto
  with s c assms show False unfolding has_call_shape_def by blast
qed

lemma display_pattern_split:
  "debug_display_pattern = Star Space # (lit display_comment @
     ([LazyStar Any] @ lit (str ''{debugLogs.map((log, i) => ('')
     @ [LazyStar Any, Ch 10, Star Space] @ lit (str ''))}'')
     @ [Star Space] @ lit (str ''</div>'')
     @ [Star Space] @ lit (str '')}'')
     @ [Star Space, Ch 10]))"
  by (simp add: debug_display_pattern_def display_comment_def)

lemma display_match_has_comment:
  assumes "matches_in debug_display_pattern s"
  shows "sublist display_comment s"
proof -
  from assms obtain u w v where s: "s = u @ w @ v" and l: "lang debug_display_pattern (adv None u) w"
    unfolding matches_in_def by blast
  from l obtain a b where "w = a @ display_comment @ b"
    unfolding display_pattern_split by (auto simp: lang_append lang_lit)
  with s have "s = (u @ a) @ display_comment @ (b @ v)" by simp
  then show ?thesis unfolding sublist_def by blast
qed

lemma no_comment_no_match:
  "\<not> sublist display_comment s \<Longrightarrow> \<not> matches_in debug_display_pattern s"
  using display_match_has_comment by blast

lemma call_shape_has_call:
  assumes "has_call_shape s"
  shows "sublist (str ''addDebugLog('') s"
proof -
  from assms obtain u w v ws body ws' where "s = u @ w @ v"
    "w = ws @ str ''addDebugLog('' @ body @ [41] @ ws' @ [10]"
    unfolding has_call_shape_def call_shape_def by blast
  then have "s = (u @ ws) @ str ''addDebugLog('' @ (body @ [41] @ ws' @ [10] @ v)" by simp
  then show ?thesis unfolding sublist_def by blast
qed

section \<open>Insertions and the occurrences of other texts\<close>

lemma no_overlap_suffix:
  "no_overlap xs p \<Longrightarrow> suffix t xs \<Longrightarrow> t \<noteq> [] \<Longrightarrow> \<not> prefix t p \<and> \<not> prefix p t"
proof (induction xs)
  case Nil
  then show ?case by simp
next
  case (Cons x xs)
  from Cons.prems(2) have "t = x # xs \<or> suffix t xs" by (auto simp: suffix_Cons)
  then show ?case
  proof
    assume "t = x # xs"
    with Cons.prems(1) show ?thesis by simp
  next
    assume "suffix t xs"
    with Cons show ?thesis by simp
  qed
qed

lemma sublist_app_right: "sublist a b \<Longrightarrow> sublist a (b @ c)"
  by (metis prefixI prefix_imp_sublist sublist_order.order.trans)

lemma sublist_app_left: "sublist a c \<Longrightarrow> sublist a (b @ c)"
  by (metis suffixI suffix_imp_sublist sublist_order.order.trans)

text \<open>
  Inserting \<open>ins\<close> behind the occurrences of \<open>old\<close> creates no forbidden word, when no
  forbidden word can start inside \<open>ins\<close> or run from before \<open>ins\<close> into it.
\<close>

lemma insertion_keeps_free:
  assumes ne: "old \<noteq> []"
    and q0: "\<And>W. Q W \<Longrightarrow> W \<noteq> []"
    and q1: "\<And>W t. Q W \<Longrightarrow> suffix t ins \<Longrightarrow> t \<noteq> [] \<Longrightarrow> \<not> prefix t W \<and> \<not> prefix W t"
    and q2: "\<And>W p1 p2. Q W \<Longrightarrow> W = p1 @ p2 \<Longrightarrow> p1 \<noteq> [] \<Longrightarrow> p2 \<noteq> [] \<Longrightarrow>
               \<not> prefix p2 ins \<and> \<not> prefix ins p2"
  shows "(\<And>W. Q W \<Longrightarrow> \<not> sublist W (w @ s)) \<Longrightarrow> Q W \<Longrightarrow>
         \<not> sublist W (w @ replace_all old (old @ ins) s)"
proof (induction "length s" arbitrary: s w W rule: less_induct)
  case less
  note free = less.prems(1) and QW = less.prems(2)
  show ?case
  proof (cases s)
    case Nil
    with free[OF QW] ne show ?thesis by simp
  next
    case (Cons x xs)
    show ?thesis
    proof (cases "prefix old s")
      case False
      have "\<not> sublist W ((w @ [x]) @ replace_all old (old @ ins) xs)"
      proof (rule less.hyps[OF _ _ QW])
        show "length xs < length s" using Cons by simp
        fix W' assume "Q W'"
        from free[OF this] Cons show "\<not> sublist W' ((w @ [x]) @ xs)" by simp
      qed
      with False Cons show ?thesis by (simp add: replace_all_step)
    next
      case True
      then obtain r where r: "s = old @ r" by (auto simp: prefix_def)
      with ne have len: "length r < length s" by simp
      have free_r: "\<not> sublist W' ([] @ r)" if "Q W'" for W'
      proof
        assume "sublist W' ([] @ r)"
        then have "sublist W' ((w @ old) @ r)" by (simp add: sublist_app_left)
        with free[OF that] r show False by simp
      qed
      have no_r: "\<not> sublist W (replace_all old (old @ ins) r)"
        using less.hyps[OF len free_r QW] by simp
      have no_left: "\<not> sublist W (w @ old)"
      proof
        assume "sublist W (w @ old)"
        then have "sublist W ((w @ old) @ r)" by (rule sublist_app_right)
        with free[OF QW] r show False by simp
      qed
      have no_mid: "\<not> sublist W (ins @ replace_all old (old @ ins) r)"
      proof
        assume "sublist W (ins @ replace_all old (old @ ins) r)"
        then consider (a) "sublist W ins" | (b) "sublist W (replace_all old (old @ ins) r)"
          | (c) W1 W2 where "W = W1 @ W2" "suffix W1 ins" "prefix W2 (replace_all old (old @ ins) r)"
          by (auto simp: sublist_append)
        then show False
        proof cases
          case a
          then obtain t where t: "suffix t ins" "prefix W t" by (auto simp: sublist_altdef')
          from t(2) q0[OF QW] have "t \<noteq> []" by auto
          with q1[OF QW t(1)] t(2) show False by simp
        next
          case b
          with no_r show False by simp
        next
          case c
          show False
          proof (cases "W1 = []")
            case True
            with c have "sublist W (replace_all old (old @ ins) r)" by auto
            with no_r show False by simp
          next
            case False
            from c(1) have "prefix W1 W" by simp
            with q1[OF QW c(2) False] show False by simp
          qed
        qed
      qed
      have "\<not> sublist W ((w @ old) @ (ins @ replace_all old (old @ ins) r))"
      proof
        assume "sublist W ((w @ old) @ (ins @ replace_all old (old @ ins) r))"
        then consider (a) "sublist W (w @ old)" | (b) "sublist W (ins @ replace_all old (old @ ins) r)"
          | (c) W1 W2 where "W = W1 @ W2" "suffix W1 (w @ old)"
              "prefix W2 (ins @ replace_all old (old @ ins) r)"
          unfolding sublist_append[of W "w @ old"] by blast
        then show False
        proof cases
          case a
          with no_left show False by simp
        next
          case b
          with no_mid show False by simp
        next
          case c
          show False
          proof (cases "W1 = [] \<or> W2 = []")
            case True
            then show False
            proof
              assume "W1 = []"
              with c have "sublist W (ins @ replace_all old (old @ ins) r)" by auto
              with no_mid show False by simp
            next
              assume "W2 = []"
              with c have "sublist W (w @ old)" by auto
              with no_left show False by simp
            qed
          next
            case False
            from c(3) have "prefix W2 ins \<or> prefix ins W2" by (auto simp: prefix_append)
            with q2[OF QW c(1)] False show False by simp
          qed
        qed
      qed
      with r ne show ?thesis by (simp add: replace_all_prefix)
    qed
  qed
qed

text \<open>An occurrence of \<open>m\<close> survives the insertions when \<open>old\<close> cannot end inside it.\<close>

lemma insertion_keeps_occurrence:
  assumes ne: "old \<noteq> []" and l: "last old \<notin> set m"
  shows "sublist m (w @ s) \<Longrightarrow> sublist m (w @ replace_all old (old @ ins) s)"
proof (induction "length s" arbitrary: s w rule: less_induct)
  case less
  show ?case
  proof (cases s)
    case Nil
    with less.prems ne show ?thesis by simp
  next
    case (Cons x xs)
    show ?thesis
    proof (cases "prefix old s")
      case False
      have "sublist m ((w @ [x]) @ replace_all old (old @ ins) xs)"
        using less.hyps[of xs "w @ [x]"] less.prems Cons by simp
      with False Cons show ?thesis by (simp add: replace_all_step)
    next
      case True
      then obtain r where r: "s = old @ r" by (auto simp: prefix_def)
      with ne have len: "length r < length s" by simp
      from less.prems r have "sublist m ((w @ old) @ r)" by simp
      then consider (a) "sublist m (w @ old)" | (b) "sublist m r"
        | (c) m1 m2 where "m = m1 @ m2" "suffix m1 (w @ old)" "prefix m2 r" "m1 \<noteq> []"
        unfolding sublist_append[of m "w @ old"] by (metis append_Nil prefix_imp_sublist)
      then have "sublist m ((w @ old) @ (ins @ replace_all old (old @ ins) r))"
      proof cases
        case a
        then show ?thesis by (rule sublist_app_right)
      next
        case b
        then have "sublist m ([] @ replace_all old (old @ ins) r)"
          using less.hyps[OF len, of "[]"] by simp
        then show ?thesis by (simp add: sublist_app_left)
      next
        case c
        from c(2,4) ne have "last m1 = last old"
          by (metis last_appendR suffix_def)
        with c(1,4) have "last old \<in> set m" by (metis last_in_set Un_iff set_append)
        with l show ?thesis by simp
      qed
      with r ne show ?thesis by (simp add: replace_all_prefix)
    qed
  qed
qed

text \<open>Where \<open>old\<close> occurs, the result contains \<open>old\<close> followed by the inserted text.\<close>

lemma insertion_made:
  "sublist old s \<Longrightarrow> old \<noteq> [] \<Longrightarrow> sublist (old @ ins) (replace_all old (old @ ins) s)"
proof (induction s)
  case Nil
  then show ?case by simp
next
  case (Cons x xs)
  show ?case
  proof (cases "prefix old (x # xs)")
    case True
    then obtain r where r: "x # xs = old @ r" by (auto simp: prefix_def)
    have "replace_all old (old @ ins) (old @ r) = (old @ ins) @ replace_all old (old @ ins) r"
      using Cons.prems(2) by (rule replace_all_prefix)
    with r show ?thesis by (metis sublist_append_rightI)
  next
    case False
    with Cons.prems(1) have "sublist old xs" by (simp add: sublist_Cons_right)
    with Cons have "sublist (old @ ins) (replace_all old (old @ ins) xs)" by simp
    with False show ?thesis by (simp add: replace_all_step sublist_Cons_right)
  qed
qed

subsection \<open>The common form of rules 2 to 5\<close>

lemma rules_ins:
  "rule2 = ins_rule marker2 anchor2 insert2" "rule3 = ins_rule marker3 anchor3 insert3"
  "rule4 = ins_rule marker4 anchor4 insert4" "rule5 = ins_rule marker5 anchor5 insert5"
  by (auto simp: rule2_def rule3_def rule4_def rule5_def ins_rule_def fun_eq_iff)

lemma ins_rule_fix: "settled m a c \<Longrightarrow> ins_rule m a ins c = c"
  by (auto simp: settled_def ins_rule_def replace_all_absent)

lemma ins_rule_settles:
  assumes "a \<noteq> []" and "sublist m ins"
  shows "settled m a (ins_rule m a ins c)"
proof (cases "sublist m c")
  case True
  then show ?thesis by (simp add: settled_def ins_rule_def)
next
  case nm: False
  show ?thesis
  proof (cases "sublist a c")
    case True
    then have "sublist (a @ ins) (replace_all a (a @ ins) c)" using assms(1) by (rule insertion_made)
    moreover have "sublist m (a @ ins)" using assms(2) by (rule sublist_app_left)
    ultimately have "sublist m (replace_all a (a @ ins) c)" by (rule sublist_order.order.trans[rotated])
    with nm show ?thesis by (simp add: settled_def ins_rule_def)
  next
    case False
    with nm show ?thesis by (simp add: settled_def ins_rule_def replace_all_absent)
  qed
qed

lemma ins_rule_keeps_occurrence:
  assumes "a \<noteq> []" and "last a \<notin> set m'" and "sublist m' c"
  shows "sublist m' (ins_rule m a ins c)"
  using insertion_keeps_occurrence[OF assms(1,2), of "[]" c ins] assms(3)
  by (simp add: ins_rule_def)

lemma ins_rule_keeps_absent:
  assumes ne: "a \<noteq> []" and nl: "ins = x # r" "x \<notin> set p" and ov: "no_overlap ins p"
    and abs: "\<not> sublist p c"
  shows "\<not> sublist p (ins_rule m a ins c)"
proof -
  have "\<not> sublist p ([] @ replace_all a (a @ ins) c)"
  proof (rule insertion_keeps_free[where Q = "\<lambda>W. W = p", OF ne])
    fix W assume "W = p"
    with abs show "W \<noteq> []" by auto
  next
    fix W t assume "W = p" "suffix t ins" "t \<noteq> []"
    with no_overlap_suffix[OF ov] show "\<not> prefix t W \<and> \<not> prefix W t" by simp
  next
    fix W p1 p2 assume W: "W = p" "W = p1 @ p2" "p1 \<noteq> []" "p2 \<noteq> []"
    show "\<not> prefix p2 ins \<and> \<not> prefix ins p2"
    proof (rule ccontr)
      assume "\<not> (\<not> prefix p2 ins \<and> \<not> prefix ins p2)"
      then have "hd p2 = x" using W(4) nl(1) by (cases p2) (auto simp: prefix_def)
      with W(4) have "x \<in> set p2" by (cases p2) auto
      with W(1,2) nl(2) show False by auto
    qed
  next
    fix W assume "W = p"
    with abs show "\<not> sublist W ([] @ c)" by simp
  qed simp
  with abs show ?thesis by (simp add: ins_rule_def)
qed

lemma ins_rule_keeps_settled:
  assumes "a \<noteq> []" and "last a \<notin> set m'" and "ins = x # r" and "x \<notin> set a'"
    and "no_overlap ins a'" and "settled m' a' c"
  shows "settled m' a' (ins_rule m a ins c)"
  using assms ins_rule_keeps_occurrence[of a m' c m ins] ins_rule_keeps_absent[of a ins x r a' c m]
  unfolding settled_def by blast

subsection \<open>What rule 1 matches\<close>

lemma lang_func_tail:
  "lang [Ch 10, Plus Space, Ch 125] q v \<longleftrightarrow>
     (\<exists>ws. v = [10] @ ws @ [125] \<and> ws \<noteq> [] \<and> (\<forall>x\<in>set ws. is_space x))"
  by auto

lemma lang_func_mid:
  "lang [Plus (Not 125), Ch 10, Plus Space] q v \<longleftrightarrow>
     (\<exists>body ws. v = body @ [10] @ ws \<and> body \<noteq> [] \<and> 125 \<notin> set body
         \<and> ws \<noteq> [] \<and> (\<forall>x\<in>set ws. is_space x))"
proof -
  have "lang [Plus (Not 125), Ch 10, Plus Space] q v \<longleftrightarrow>
     (\<exists>a b. v = a @ b \<and> a \<noteq> [] \<and> (\<forall>x\<in>set a. x \<noteq> 125)
        \<and> (\<exists>u. b = 10 # u \<and> u \<noteq> [] \<and> (\<forall>x\<in>set u. is_space x)))"
    by simp
  also have "\<dots> \<longleftrightarrow> (\<exists>body ws. v = body @ [10] @ ws \<and> body \<noteq> [] \<and> 125 \<notin> set body
         \<and> ws \<noteq> [] \<and> (\<forall>x\<in>set ws. is_space x))"
    by (simp, blast)
  finally show ?thesis .
qed

lemma func_pattern_parts:
  "func_pattern = lit (str ''const addDebugLog = (msg: string) => {'')
      @ ([Plus (Not 125), Ch 10, Plus Space] @ (lit (str ''console.log(msg)'')
      @ [Ch 10, Plus Space, Ch 125]))"
  by (simp add: func_pattern_def)

lemma lang_func_pattern:
  "lang func_pattern p w \<longleftrightarrow>
     (\<exists>body ws1 ws2. w = str ''const addDebugLog = (msg: string) => {'' @ body @ [10] @ ws1
          @ str ''console.log(msg)'' @ [10] @ ws2 @ [125]
        \<and> body \<noteq> [] \<and> 125 \<notin> set body \<and> ws1 \<noteq> [] \<and> (\<forall>x\<in>set ws1. is_space x)
        \<and> ws2 \<noteq> [] \<and> (\<forall>x\<in>set ws2. is_space x))"
proof
  assume "lang func_pattern p w"
  then obtain body ws1 ws2 where "w = str ''const addDebugLog = (msg: string) => {'' @ (body @ [10] @ ws1)
          @ str ''console.log(msg)'' @ ([10] @ ws2 @ [125])"
    "body \<noteq> []" "125 \<notin> set body" "ws1 \<noteq> []" "\<forall>x\<in>set ws1. is_space x"
    "ws2 \<noteq> []" "\<forall>x\<in>set ws2. is_space x"
    unfolding func_pattern_parts lang_append lang_lit lang_func_mid lang_func_tail by blast
  then show "\<exists>body ws1 ws2. w = str ''const addDebugLog = (msg: string) => {'' @ body @ [10] @ ws1
          @ str ''console.log(msg)'' @ [10] @ ws2 @ [125]
        \<and> body \<noteq> [] \<and> 125 \<notin> set body \<and> ws1 \<noteq> [] \<and> (\<forall>x\<in>set ws1. is_space x)
        \<and> ws2 \<noteq> [] \<and> (\<forall>x\<in>set ws2. is_space x)"
    by (intro exI[of _ body] exI[of _ ws1] exI[of _ ws2]) simp
next
  assume "\<exists>body ws1 ws2. w = str ''const addDebugLog = (msg: string) => {'' @ body @ [10] @ ws1
          @ str ''console.log(msg)'' @ [10] @ ws2 @ [125]
        \<and> body \<noteq> [] \<and> 125 \<notin> set body \<and> ws1 \<noteq> [] \<and> (\<forall>x\<in>set ws1. is_space x)
        \<and> ws2 \<noteq> [] \<and> (\<forall>x\<in>set ws2. is_space x)"
  then obtain body ws1 ws2 where w: "w = str ''const addDebugLog = (msg: string) => {'' @ (body @ [10] @ ws1)
          @ str ''console.log(msg)'' @ ([10] @ ws2 @ [125])"
    and c: "body \<noteq> []" "125 \<notin> set body" "ws1 \<noteq> []" "\<forall>x\<in>set ws1. is_space x"
    "ws2 \<noteq> []" "\<forall>x\<in>set ws2. is_space x"
    by auto
  show "lang func_pattern p w"
    unfolding func_pattern_parts lang_append lang_lit lang_func_mid lang_func_tail
    using w c by blast
qed

lemma func_match_tail:
  assumes "lang func_pattern p w"
  shows "\<exists>V s. w = V @ [s, 125] \<and> is_space s \<and> 125 \<notin> set V"
proof -
  from assms obtain body ws1 ws2 where w: "w = str ''const addDebugLog = (msg: string) => {'' @ body @ [10] @ ws1
          @ str ''console.log(msg)'' @ [10] @ ws2 @ [125]"
    and b: "125 \<notin> set body" and s1: "\<forall>x\<in>set ws1. is_space x"
    and s2: "ws2 \<noteq> []" "\<forall>x\<in>set ws2. is_space x"
    unfolding lang_func_pattern by blast
  let ?V = "str ''const addDebugLog = (msg: string) => {'' @ body @ [10] @ ws1
          @ str ''console.log(msg)'' @ [10] @ butlast ws2"
  have nsp: "\<not> is_space 125" by (simp add: is_space_def)
  from s2 have sp: "is_space (last ws2)" by simp
  have "125 \<notin> set ws1" using s1 nsp by blast
  moreover have "125 \<notin> set (butlast ws2)" using s2(2) nsp by (meson in_set_butlastD)
  ultimately have "125 \<notin> set ?V" using b by (simp add: str_def)
  moreover have "w = ?V @ [last ws2, 125]" using w s2(1) by simp
  ultimately show ?thesis using sp by blast
qed

lemma first_occurrence_unique:
  "x \<notin> set xs \<Longrightarrow> x \<notin> set xs' \<Longrightarrow> xs @ x # ys = xs' @ x # ys' \<Longrightarrow> xs = xs'"
proof (induction xs arbitrary: xs')
  case Nil
  then show ?case by (cases xs') auto
next
  case (Cons a as)
  then show ?case by (cases xs') auto
qed

text \<open>No match of rule 1 runs from before an inserted line into it.\<close>

lemma func_match_not_into:
  assumes l: "lang func_pattern p w" and ok: "brace_tail_ok ins"
    and w: "w = p1 @ p2" and p2: "p2 \<noteq> []"
  shows "\<not> prefix p2 ins \<and> \<not> prefix ins p2"
proof -
  from func_match_tail[OF l] obtain V s where V: "w = V @ [s, 125]" "is_space s" "125 \<notin> set V"
    by blast
  define pre where "pre = takeWhile (\<lambda>c. c \<noteq> 125) ins"
  define post where "post = dropWhile (\<lambda>c. c \<noteq> 125) ins"
  from ok have pre: "pre \<noteq> []" "\<not> is_space (last pre)" and post: "2 \<le> length post"
    by (simp_all add: brace_tail_ok_def pre_def post_def)
  have ins: "ins = pre @ post" by (simp add: pre_def post_def)
  have npre: "125 \<notin> set pre" unfolding pre_def by (metis (mono_tags, lifting) set_takeWhileD)
  from post have "post \<noteq> []" by auto
  then have "hd post = 125" unfolding post_def by (metis (mono_tags, lifting) hd_dropWhile)
  with post obtain y ys where pq: "post = 125 # y # ys"
    by (cases post; cases "tl post") auto
  have bl: "butlast w = V @ [s]" using V(1) by (simp add: butlast_append)
  have nb: "125 \<notin> set (butlast w)" using bl V(2,3) by (auto simp: is_space_def)
  have lw: "last w = 125" using V(1) by simp
  show ?thesis
  proof (intro conjI notI)
    assume "prefix ins p2"
    then obtain z where "p2 = pre @ 125 # y # ys @ z" using ins pq by (auto simp: prefix_def)
    with w have "w = (p1 @ pre @ 125 # y # ys @ z)" by simp
    then have "butlast w = p1 @ pre @ 125 # butlast (y # ys @ z)"
      by (simp add: butlast_append)
    with nb show False by simp
  next
    assume "prefix p2 ins"
    then obtain z where z: "pre @ 125 # y # ys = p2 @ z" using ins pq by (auto simp: prefix_def)
    from w p2 lw have "last p2 = 125" by simp
    with p2 obtain p2' where p2': "p2 = p2' @ [125]" by (metis append_butlast_last_id)
    with w have "butlast w = p1 @ p2'" by (simp add: butlast_append)
    with nb have n2: "125 \<notin> set p2'" by simp
    from z p2' have "pre @ 125 # (y # ys) = p2' @ 125 # z" by simp
    then have "pre = p2'" using npre n2 by (rule first_occurrence_unique[rotated 2])
    with \<open>butlast w = p1 @ p2'\<close> bl pre(1) have "last pre = s"
      by (metis last_appendR last_snoc)
    with pre(2) V(2) show False by simp
  qed
qed

lemma prefixed_not_inside:
  assumes pl: "prefix l w" and ov: "no_overlap ins l" and t: "suffix t ins" "t \<noteq> []"
  shows "\<not> prefix t w \<and> \<not> prefix w t"
proof -
  from no_overlap_suffix[OF ov t] have n: "\<not> prefix t l" "\<not> prefix l t" by simp_all
  show ?thesis
  proof (intro conjI notI)
    assume "prefix t w"
    with pl have "prefix t l \<or> prefix l t" by (metis prefix_same_cases)
    with n show False by simp
  next
    assume "prefix w t"
    with pl have "prefix l t" by (metis prefix_order.trans)
    with n show False by simp
  qed
qed

lemma func_match_not_inside:
  assumes "lang func_pattern p w"
    and "no_overlap ins (str ''const addDebugLog = (msg: string) => {'')"
    and "suffix t ins" "t \<noteq> []"
  shows "\<not> prefix t w \<and> \<not> prefix w t"
  using func_match_prefix[OF assms(1)] assms(2,3,4) by (rule prefixed_not_inside)

lemma lang_func_prev: "lang func_pattern p w \<Longrightarrow> lang func_pattern q w"
  by (simp add: lang_func_pattern)

lemma matches_in_func: "matches_in func_pattern c \<longleftrightarrow> (\<exists>W. lang func_pattern None W \<and> sublist W c)"
  unfolding matches_in_def sublist_def using lang_func_prev by blast

lemma ins_rule_keeps_func_free:
  assumes ne: "a \<noteq> []"
    and ov: "no_overlap ins (str ''const addDebugLog = (msg: string) => {'')"
    and ok: "brace_tail_ok ins"
    and free: "\<not> matches_in func_pattern c"
  shows "\<not> matches_in func_pattern (ins_rule m a ins c)"
proof -
  have "\<not> sublist W ([] @ replace_all a (a @ ins) c)" if "lang func_pattern None W" for W
  proof (rule insertion_keeps_free[where Q = "\<lambda>W. lang func_pattern None W", OF ne _ _ _ _ that])
    fix W assume "lang func_pattern None W"
    from func_match_prefix[OF this] show "W \<noteq> []" by (auto simp: str_def)
  next
    fix W t assume "lang func_pattern None W" "suffix t ins" "t \<noteq> []"
    then show "\<not> prefix t W \<and> \<not> prefix W t" using ov by (intro func_match_not_inside)
  next
    fix W p1 p2 assume "lang func_pattern None W" "W = p1 @ p2" "p1 \<noteq> []" "p2 \<noteq> []"
    then show "\<not> prefix p2 ins \<and> \<not> prefix ins p2" using ok by (intro func_match_not_into)
  next
    fix W assume "lang func_pattern None W"
    with free show "\<not> sublist W ([] @ c)" by (auto simp: matches_in_func)
  qed
  with free show ?thesis by (auto simp: ins_rule_def matches_in_func)
qed

subsection \<open>Rule 1 and the lifecycle block\<close>

lemma re_sub_replaces:
  "\<exists>u w v. s = u @ w @ v \<and> lang pat (adv p u) w \<Longrightarrow>
   \<exists>a m b. re_sub pat repl p s = a @ repl m @ b"
proof (induction s arbitrary: p)
  case Nil
  then have "lang pat p []" by auto
  from rmatch_complete[OF this, of "[]"] obtain t where "rmatch pat p [] = Some t" by auto
  then have "re_sub pat repl p [] = [] @ repl [] @ []" by simp
  then show ?case by blast
next
  case (Cons x xs)
  show ?case
  proof (cases "rmatch pat p (x # xs)")
    case (Some t)
    then obtain m where m: "x # xs = m @ t" using rmatch_suffix by blast
    show ?thesis
    proof (cases "m = []")
      case True
      with m Some have "rmatch pat p (x # xs) = Some (x # xs)" by simp
      from re_sub_empty[OF this, of repl]
      have "re_sub pat repl p (x # xs) = [] @ repl [] @ (x # re_sub pat repl (Some x) xs)" by simp
      then show ?thesis by blast
    next
      case False
      from Some m have "rmatch pat p (m @ t) = Some t" by simp
      from re_sub_Some[OF this False, of repl] m
      have "re_sub pat repl p (x # xs) = [] @ repl m @ re_sub pat repl (Some (last m)) t" by simp
      then show ?thesis by blast
    qed
  next
    case None
    from Cons.prems obtain u w v where s: "x # xs = u @ w @ v" and l: "lang pat (adv p u) w" by blast
    have "u \<noteq> []"
    proof
      assume "u = []"
      with s l have "x # xs = w @ v" "lang pat p w" by simp_all
      with rmatch_complete[of pat p w v] None show False by simp
    qed
    then obtain u' where u: "u = x # u'" using s by (cases u) auto
    with s l have "xs = u' @ w @ v" "lang pat (adv (Some x) u') w"
      by (simp_all add: adv_Cons[of x u' p] del: adv.simps)
    then have "\<exists>a m b. re_sub pat repl (Some x) xs = a @ repl m @ b" by (intro Cons.IH) blast
    then obtain a m b where "re_sub pat repl (Some x) xs = a @ repl m @ b" by blast
    with None have "re_sub pat repl p (x # xs) = (x # a) @ repl m @ b" by (simp add: re_sub_None)
    then show ?thesis by blast
  qed
qed

lemma mount_marker_in_log: "sublist mount_marker mount_log"
  unfolding mount_marker_def mount_log_def sublist_def
  by (rule exI[of _ "[10] @ str ''    // '' @ [12510, 12454, 12531, 12488, 30906, 35469, 29992, 10]
          @ str ''    useEffect(() => {'' @ [10] @ str ''        addDebugLog('' @ [39]"],
      rule exI[of _ "[39] @ str '')'' @ [10]
          @ str ''        return () => addDebugLog('' @ [39, 128128] @ str '' PDFPane Unmounted'' @ [39]
          @ str '')'' @ [10] @ str ''    }, [])'' @ [10]"]) simp

lemma rule1_fix: "settled1 c \<Longrightarrow> rule1 c = c"
  by (auto simp: settled1_def rule1_def re_sub_no_match)

lemma rule1_settles: "settled1 (rule1 c)"
proof (cases "sublist mount_marker c \<or> \<not> matches_in func_pattern c")
  case True
  then have "settled1 c" by (simp add: settled1_def)
  with rule1_fix[OF this] show ?thesis by simp
next
  case False
  then have nm: "\<not> sublist mount_marker c" and m: "matches_in func_pattern c" by simp_all
  from m have "\<exists>u w v. c = u @ w @ v \<and> lang func_pattern (adv None u) w"
    by (simp add: matches_in_def)
  from re_sub_replaces[OF this, of "\<lambda>m. m @ mount_log"]
  obtain a m b where "re_sub func_pattern (\<lambda>m. m @ mount_log) None c = (a @ m) @ mount_log @ b"
    by auto
  then have "sublist mount_log (rule1 c)" using nm by (simp add: rule1_def del: append_assoc)
  with mount_marker_in_log have "sublist mount_marker (rule1 c)"
    by (rule sublist_order.order.trans)
  then show ?thesis by (simp add: settled1_def)
qed

lemma ins_rule_keeps_settled1:
  assumes "a \<noteq> []" and "last a \<notin> set mount_marker"
    and "no_overlap ins (str ''const addDebugLog = (msg: string) => {'')"
    and "brace_tail_ok ins" and "settled1 c"
  shows "settled1 (ins_rule m a ins c)"
  using assms ins_rule_keeps_occurrence[of a mount_marker c m ins]
    ins_rule_keeps_func_free[of a ins c m]
  unfolding settled1_def by blast

subsection \<open>The texts of the five rules\<close>

lemma anchors_last:
  "last anchor2 = 41" "last anchor3 = 41" "last anchor4 = 41" "last anchor5 = 41"
  by (simp_all add: anchor2_def anchor3_def anchor4_def anchor5_def str_def)

lemma markers_no_paren:
  "41 \<notin> set mount_marker" "41 \<notin> set marker2" "41 \<notin> set marker3" "41 \<notin> set marker4"
  by (simp_all add: mount_marker_def marker2_def marker3_def marker4_def str_def)

lemma anchors_no_newline: "10 \<notin> set anchor2" "10 \<notin> set anchor3" "10 \<notin> set anchor4"
  by (simp_all add: anchor2_def anchor3_def anchor4_def str_def)

lemma inserts_start:
  "\<exists>r. insert3 = 10 # r" "\<exists>r. insert4 = 10 # r" "\<exists>r. insert5 = 10 # r"
  by (simp_all add: insert3_def insert4_def insert5_def)

lemma markers_in_inserts:
  "sublist marker2 insert2" "sublist marker3 insert3" "sublist marker4 insert4"
  "sublist marker5 insert5"
  by (simp_all add: marker2_def marker3_def marker4_def marker5_def
      insert2_def insert3_def insert4_def insert5_def text_eval del: sublist_code)

lemma inserts_no_anchor:
  "no_overlap insert3 anchor2" "no_overlap insert4 anchor2" "no_overlap insert5 anchor2"
  "no_overlap insert4 anchor3" "no_overlap insert5 anchor3" "no_overlap insert5 anchor4"
  by (simp_all add: insert3_def insert4_def insert5_def anchor2_def anchor3_def anchor4_def str_def)

lemma inserts_no_func:
  "no_overlap insert2 (str ''const addDebugLog = (msg: string) => {'')"
  "no_overlap insert3 (str ''const addDebugLog = (msg: string) => {'')"
  "no_overlap insert4 (str ''const addDebugLog = (msg: string) => {'')"
  "no_overlap insert5 (str ''const addDebugLog = (msg: string) => {'')"
  by (simp_all add: insert2_def insert3_def insert4_def insert5_def str_def)

lemma inserts_brace_tail:
  "brace_tail_ok insert2" "brace_tail_ok insert3" "brace_tail_ok insert4" "brace_tail_ok insert5"
  by (simp_all add: brace_tail_ok_def insert2_def insert3_def insert4_def insert5_def str_def
      is_space_def)


subsection \<open>Each rule leaves the text in a state it does not change again\<close>

lemma rules_settle:
  "settled marker2 anchor2 (rule2 c)" "settled marker3 anchor3 (rule3 c)"
  "settled marker4 anchor4 (rule4 c)" "settled marker5 anchor5 (rule5 c)"
  by (simp_all add: rules_ins ins_rule_settles anchors_nonempty markers_in_inserts)

lemma rules_fix:
  "settled marker2 anchor2 c \<Longrightarrow> rule2 c = c" "settled marker3 anchor3 c \<Longrightarrow> rule3 c = c"
  "settled marker4 anchor4 c \<Longrightarrow> rule4 c = c" "settled marker5 anchor5 c \<Longrightarrow> rule5 c = c"
  by (simp_all add: rules_ins ins_rule_fix)

lemma later_rules_keep_settled1:
  assumes "settled1 c"
  shows "settled1 (rule2 c)" "settled1 (rule3 c)" "settled1 (rule4 c)" "settled1 (rule5 c)"
  using assms
  by (simp_all add: rules_ins ins_rule_keeps_settled1 anchors_nonempty anchors_last
      markers_no_paren inserts_no_func inserts_brace_tail)

lemma later_rules_keep_settled2:
  assumes "settled marker2 anchor2 c"
  shows "settled marker2 anchor2 (rule3 c)" "settled marker2 anchor2 (rule4 c)"
    "settled marker2 anchor2 (rule5 c)"
proof -
  from inserts_start obtain r3 r4 r5 where "insert3 = 10 # r3" "insert4 = 10 # r4" "insert5 = 10 # r5"
    by blast
  then show "settled marker2 anchor2 (rule3 c)" "settled marker2 anchor2 (rule4 c)"
    "settled marker2 anchor2 (rule5 c)"
    unfolding rules_ins using assms
    by (auto intro!: ins_rule_keeps_settled simp: anchors_nonempty anchors_last markers_no_paren
        anchors_no_newline inserts_no_anchor)
qed

lemma later_rules_keep_settled3:
  assumes "settled marker3 anchor3 c"
  shows "settled marker3 anchor3 (rule4 c)" "settled marker3 anchor3 (rule5 c)"
proof -
  from inserts_start obtain r4 r5 where "insert4 = 10 # r4" "insert5 = 10 # r5"
    by blast
  then show "settled marker3 anchor3 (rule4 c)" "settled marker3 anchor3 (rule5 c)"
    unfolding rules_ins using assms
    by (auto intro!: ins_rule_keeps_settled simp: anchors_nonempty anchors_last markers_no_paren
        anchors_no_newline inserts_no_anchor)
qed

lemma later_rules_keep_settled4:
  assumes "settled marker4 anchor4 c"
  shows "settled marker4 anchor4 (rule5 c)"
proof -
  from inserts_start obtain r5 where "insert5 = 10 # r5" by blast
  then show ?thesis
    unfolding rules_ins using assms
    by (auto intro!: ins_rule_keeps_settled simp: anchors_nonempty anchors_last markers_no_paren
        anchors_no_newline inserts_no_anchor)
qed

text \<open>
  Claim C1. The Patcher is idempotent: applying its five guarded rules to its own output
  changes nothing, for every input text. Each rule leaves the text with its marker present
  or its anchor absent, and no later rule destroys a marker or creates an anchor: the
  inserted lines start with a newline, which no anchor contains, and no anchor or match of
  rule 1 can start inside an inserted line.
\<close>

theorem patch_idempotent: "patch (patch T) = patch T"
proof -
  define c1 where "c1 = rule1 T"
  define c2 where "c2 = rule2 c1"
  define c3 where "c3 = rule3 c2"
  define c4 where "c4 = rule4 c3"
  define c5 where "c5 = rule5 c4"
  have p: "patch T = c5" by (simp add: patch_def c1_def c2_def c3_def c4_def c5_def)
  have "settled1 c1" unfolding c1_def by (rule rule1_settles)
  then have "settled1 c2" unfolding c2_def by (rule later_rules_keep_settled1)
  then have "settled1 c3" unfolding c3_def by (rule later_rules_keep_settled1)
  then have "settled1 c4" unfolding c4_def by (rule later_rules_keep_settled1)
  then have "settled1 c5" unfolding c5_def by (rule later_rules_keep_settled1)
  then have f1: "rule1 c5 = c5" by (rule rule1_fix)
  have "settled marker2 anchor2 c2" unfolding c2_def by (rule rules_settle)
  then have "settled marker2 anchor2 c3" unfolding c3_def by (rule later_rules_keep_settled2)
  then have "settled marker2 anchor2 c4" unfolding c4_def by (rule later_rules_keep_settled2)
  then have "settled marker2 anchor2 c5" unfolding c5_def by (rule later_rules_keep_settled2)
  then have f2: "rule2 c5 = c5" by (rule rules_fix)
  have "settled marker3 anchor3 c3" unfolding c3_def by (rule rules_settle)
  then have "settled marker3 anchor3 c4" unfolding c4_def by (rule later_rules_keep_settled3)
  then have "settled marker3 anchor3 c5" unfolding c5_def by (rule later_rules_keep_settled3)
  then have f3: "rule3 c5 = c5" by (rule rules_fix)
  have "settled marker4 anchor4 c4" unfolding c4_def by (rule rules_settle)
  then have "settled marker4 anchor4 c5" unfolding c5_def by (rule later_rules_keep_settled4)
  then have f4: "rule4 c5 = c5" by (rule rules_fix)
  have "settled marker5 anchor5 c5" unfolding c5_def by (rule rules_settle)
  then have f5: "rule5 c5 = c5" by (rule rules_fix)
  show ?thesis unfolding p by (simp add: patch_def f1 f2 f3 f4 f5)
qed

subsection \<open>The matcher on the line pattern\<close>










subsection \<open>The end of a match of the line pattern\<close>

lemma cut_ws_Some_iff: "cut_ws t \<noteq> None \<longleftrightarrow> 10 \<in> set (takeWhile is_space t)"
proof (induction t)
  case Nil
  then show ?case by simp
next
  case (Cons x xs)
  then show ?case by (auto split: option.splits simp: is_space_def)
qed

lemma cut_ws_None_iff: "cut_ws t = None \<longleftrightarrow> 10 \<notin> set (takeWhile is_space t)"
  using cut_ws_Some_iff[of t] by blast

lemma cut_ws_shape:
  "cut_ws t = Some r \<Longrightarrow> \<exists>m. t = m @ [10] @ r \<and> (\<forall>x\<in>set m. is_space x)"
proof (induction t arbitrary: r)
  case Nil
  then show ?case by simp
next
  case (Cons x xs)
  from Cons.prems have sx: "is_space x" by (auto split: if_splits)
  show ?case
  proof (cases "cut_ws xs")
    case None
    with Cons.prems sx have "x = 10" "r = xs" by (auto split: if_splits)
    then have "x # xs = [] @ [10] @ r \<and> (\<forall>x\<in>set []. is_space x)" by simp
    then show ?thesis by blast
  next
    case (Some r')
    with Cons.prems sx have "r' = r" by simp
    with Cons.IH Some obtain m where "xs = m @ [10] @ r" "\<forall>x\<in>set m. is_space x" by blast
    with sx have "x # xs = (x # m) @ [10] @ r \<and> (\<forall>y\<in>set (x # m). is_space y)" by simp
    then show ?thesis by blast
  qed
qed


subsection \<open>The shape of the text where the line pattern matches\<close>

lemma call_chars:
  "10 \<notin> set (str ''addDebugLog('')" "41 \<notin> set (str ''addDebugLog('')"
  "str ''addDebugLog('' \<noteq> []" "last (str ''addDebugLog('') = 40"
  "\<not> is_space (hd (str ''addDebugLog(''))"
  by (simp_all add: str_def is_space_def)

lemma call_rest_unfold:
  "C = str ''addDebugLog('' \<Longrightarrow>
   call_rest t =
     (if prefix C (dropWhile is_space t) then
        (if takeWhile (\<lambda>c. c \<noteq> 41) (drop (length C) (dropWhile is_space t)) = [] then None
         else (case dropWhile (\<lambda>c. c \<noteq> 41) (drop (length C) (dropWhile is_space t)) of
                 [] \<Rightarrow> None | y # ys \<Rightarrow> cut_ws ys))
      else None)"
  by (simp add: call_rest_def Let_def)

lemma call_rest_iff_gen:
  assumes C: "C = str ''addDebugLog(''"
  shows "call_rest t = Some r \<longleftrightarrow>
     (\<exists>ws b ys. t = ws @ C @ b @ 41 # ys \<and> (\<forall>x\<in>set ws. is_space x)
        \<and> b \<noteq> [] \<and> 41 \<notin> set b \<and> cut_ws ys = Some r)"
proof
  assume c: "call_rest t = Some r"
  define t1 where "t1 = dropWhile is_space t"
  define t2 where "t2 = drop (length C) t1"
  note cr = call_rest_unfold[OF C, of t, folded t1_def, folded t2_def]
  from c have p: "prefix C t1" unfolding cr by (auto split: if_splits)
  with c have b: "takeWhile (\<lambda>c. c \<noteq> 41) t2 \<noteq> []" unfolding cr by (auto split: if_splits)
  with c p obtain y ys where d: "dropWhile (\<lambda>c. c \<noteq> 41) t2 = y # ys" and cw: "cut_ws ys = Some r"
    unfolding cr by (auto split: if_splits list.splits)
  have y: "y = 41" using d hd_dropWhile[of "\<lambda>c. c \<noteq> 41" t2] by simp
  from p have t1: "t1 = C @ t2" unfolding t2_def by (metis append_eq_conv_conj prefixE)
  have "t = takeWhile is_space t @ t1" unfolding t1_def by simp
  moreover have "t2 = takeWhile (\<lambda>c. c \<noteq> 41) t2 @ 41 # ys"
    using d y takeWhile_dropWhile_id[of "\<lambda>c. c \<noteq> 41" t2] by simp
  ultimately have "t = takeWhile is_space t @ C @ takeWhile (\<lambda>c. c \<noteq> 41) t2 @ 41 # ys"
    using t1 by simp
  moreover have "\<forall>x\<in>set (takeWhile is_space t). is_space x" by (metis set_takeWhileD)
  moreover have "41 \<notin> set (takeWhile (\<lambda>c. c \<noteq> 41) t2)"
    using set_takeWhileD[of 41 "\<lambda>c. c \<noteq> 41" t2] by blast
  ultimately show "\<exists>ws b ys. t = ws @ C @ b @ 41 # ys \<and> (\<forall>x\<in>set ws. is_space x)
        \<and> b \<noteq> [] \<and> 41 \<notin> set b \<and> cut_ws ys = Some r"
    using b cw by blast
next
  assume "\<exists>ws b ys. t = ws @ C @ b @ 41 # ys \<and> (\<forall>x\<in>set ws. is_space x)
        \<and> b \<noteq> [] \<and> 41 \<notin> set b \<and> cut_ws ys = Some r"
  then obtain ws b ys where t: "t = ws @ C @ b @ 41 # ys" and ws: "\<forall>x\<in>set ws. is_space x"
    and b: "b \<noteq> []" "41 \<notin> set b" and cw: "cut_ws ys = Some r" by blast
  obtain c0 cs where C0: "C = c0 # cs" "\<not> is_space c0"
    using call_chars(3,5) unfolding C[symmetric] by (cases C) auto
  have ws': "\<And>x. x \<in> set ws \<Longrightarrow> is_space x" using ws by blast
  have b': "\<And>x. x \<in> set b \<Longrightarrow> x \<noteq> 41" using b(2) by blast
  have "dropWhile is_space (ws @ z) = dropWhile is_space z" for z
    by (rule dropWhile_append2) (rule ws')
  then have t1: "dropWhile is_space t = C @ b @ 41 # ys"
    unfolding t using C0 by simp
  have "takeWhile (\<lambda>c. c \<noteq> 41) (b @ z) = b @ takeWhile (\<lambda>c. c \<noteq> 41) z" for z
    by (rule takeWhile_append2) (rule b')
  then have tw: "takeWhile (\<lambda>c. c \<noteq> 41) (b @ 41 # ys) = b" by simp
  have "dropWhile (\<lambda>c. c \<noteq> 41) (b @ z) = dropWhile (\<lambda>c. c \<noteq> 41) z" for z
    by (rule dropWhile_append2) (rule b')
  then have dw: "dropWhile (\<lambda>c. c \<noteq> 41) (b @ 41 # ys) = 41 # ys" by simp
  show "call_rest t = Some r"
    unfolding call_rest_unfold[OF C] t1 using b(1) cw by (simp add: tw dw)
qed

lemmas call_rest_iff = call_rest_iff_gen[OF refl]




section \<open>What the Unpatcher leaves alone\<close>

subsection \<open>Lines\<close>

lemma split_on_nonempty: "split_on c s \<noteq> []"
  by (induction s) (auto split: list.splits)

lemma split_on_sep: "split_on c (a @ c # s) = split_on c a @ split_on c s"
proof (induction a)
  case Nil
  then show ?case by simp
next
  case (Cons x a)
  show ?case
  proof (cases "split_on c a")
    case Nil
    with split_on_nonempty show ?thesis by blast
  next
    case (Cons l ls)
    with Cons.IH show ?thesis by simp
  qed
qed

lemma hd_split_on: "hd (split_on c s) = takeWhile (\<lambda>x. x \<noteq> c) s"
proof (induction s)
  case Nil
  then show ?case by simp
next
  case (Cons x s)
  then show ?case using split_on_nonempty[of c s] by (cases "split_on c s") auto
qed

lemma first_line_is_line:
  assumes "pre = [] \<or> last pre = c"
  shows "takeWhile (\<lambda>x. x \<noteq> c) s \<in> set (split_on c (pre @ s))"
proof -
  have h: "takeWhile (\<lambda>x. x \<noteq> c) s \<in> set (split_on c s)"
    using hd_split_on[of c s] split_on_nonempty[of c s] by (metis hd_in_set)
  show ?thesis
  proof (cases "pre = []")
    case True
    with h show ?thesis by simp
  next
    case False
    with assms obtain a where "pre = a @ [c]" by (metis append_butlast_last_id)
    then have "split_on c (pre @ s) = split_on c a @ split_on c s" by (simp add: split_on_sep)
    with h show ?thesis by simp
  qed
qed

lemma split_at_last_newline:
  "\<exists>a b. xs = a @ b \<and> (a = [] \<or> last a = c) \<and> c \<notin> set b"
proof (induction xs rule: rev_induct)
  case Nil
  then show ?case by simp
next
  case (snoc x xs)
  then obtain a b where ab: "xs = a @ b" "a = [] \<or> last a = c" "c \<notin> set b" by blast
  show ?case
  proof (cases "x = c")
    case True
    then have "xs @ [x] = (xs @ [x]) @ [] \<and> (xs @ [x] = [] \<or> last (xs @ [x]) = c) \<and> c \<notin> set []"
      by simp
    then show ?thesis by blast
  next
    case False
    with ab have "xs @ [x] = a @ (b @ [x]) \<and> (a = [] \<or> last a = c) \<and> c \<notin> set (b @ [x])"
      by simp
    then show ?thesis by blast
  qed
qed

text \<open>
  A text of the shape starts on some line, behind white space only: the shape begins at a
  line start and the white space at its start ends on the line of \<open>addDebugLog(\<close>.
\<close>

lemma call_shape_starts_line_gen:
  assumes C: "C = str ''addDebugLog(''" and h: "has_call_shape s"
  shows "\<exists>l\<in>set (split_on 10 s). prefix C (dropWhile is_space l)"
proof -
  have Cc: "10 \<notin> set C" "C \<noteq> []" "\<not> is_space (hd C)" using call_chars unfolding C by simp_all
  from h obtain u ws body ws' v where s: "s = u @ (ws @ C @ body @ [41] @ ws' @ [10]) @ v"
    and u: "u = [] \<or> last u = 10" and ws: "\<forall>x\<in>set ws. is_space x"
    unfolding has_call_shape_def call_shape_def C by blast
  from split_at_last_newline[of ws 10] obtain a b where ab: "ws = a @ b" "a = [] \<or> last a = 10"
    "10 \<notin> set b" by blast
  define rest where "rest = body @ [41] @ ws' @ [10] @ v"
  have s': "s = (u @ a) @ (b @ C @ rest)" using s ab(1) by (simp add: rest_def)
  have pre: "u @ a = [] \<or> last (u @ a) = 10" using u ab(2) by (cases "a = []") auto
  have nl: "\<And>x. x \<in> set (b @ C) \<Longrightarrow> x \<noteq> 10" using ab(3) Cc(1) by auto
  have "takeWhile (\<lambda>x. x \<noteq> 10) ((b @ C) @ rest) = (b @ C) @ takeWhile (\<lambda>x. x \<noteq> 10) rest"
    by (rule takeWhile_append2) (rule nl)
  then have line: "b @ C @ takeWhile (\<lambda>x. x \<noteq> 10) rest \<in> set (split_on 10 s)"
    using first_line_is_line[OF pre, of "b @ C @ rest"] s' by simp
  have bs: "\<And>x. x \<in> set b \<Longrightarrow> is_space x" using ws ab(1) by auto
  have "dropWhile is_space (b @ (C @ takeWhile (\<lambda>x. x \<noteq> 10) rest))
          = dropWhile is_space (C @ takeWhile (\<lambda>x. x \<noteq> 10) rest)"
    by (rule dropWhile_append2) (rule bs)
  also have "\<dots> = C @ takeWhile (\<lambda>x. x \<noteq> 10) rest" using Cc(2,3) by (cases C) auto
  finally have "prefix C (dropWhile is_space (b @ C @ takeWhile (\<lambda>x. x \<noteq> 10) rest))" by simp
  with line show ?thesis by blast
qed

lemma call_shape_starts_line:
  "has_call_shape s \<Longrightarrow> \<exists>l\<in>set (split_on 10 s). starts_with_call l"
  unfolding starts_with_call_def by (rule call_shape_starts_line_gen[OF refl])

text \<open>
  Claim C5, as amended. A text in which the shape of an injected statement starts at no line
  start, without the comment that starts the display block and without the phrase
  \<open>debugLogs.length\<close>, is returned unchanged by the Unpatcher. The shape is the one the
  line pattern matches and may run over several lines; it starts nowhere, in particular,
  when no line begins, behind white space, with \<open>addDebugLog(\<close>. A call with another name
  does not begin so and is never taken for an injected statement.
\<close>

theorem selective_removal:
  "(\<not> has_call_shape T \<and> \<not> sublist display_comment T \<and> \<not> sublist (str ''debugLogs.length'') T
      \<longrightarrow> unpatch T = T)
   \<and> ((\<forall>l\<in>set (split_on 10 T). \<not> starts_with_call l) \<longrightarrow> \<not> has_call_shape T)"
proof (intro conjI impI)
  assume a: "\<not> has_call_shape T \<and> \<not> sublist display_comment T
      \<and> \<not> sublist (str ''debugLogs.length'') T"
  then have "remove_calls T = T"
    by (simp add: remove_calls_def re_sub_no_match no_call_shape_no_match)
  moreover have "remove_display T = T"
    using a by (simp add: remove_display_def re_sub_no_match no_comment_no_match)
  ultimately show "unpatch T = T" using a by (simp add: unpatch_def fallback_def)
next
  assume "\<forall>l\<in>set (split_on 10 T). \<not> starts_with_call l"
  then show "\<not> has_call_shape T" using call_shape_starts_line by blast
qed

lemma other_calls_eval:
  "\<not> sublist (str ''addDebugLog('') other_calls_text"
  "\<not> sublist display_comment other_calls_text"
  "\<not> sublist (str ''debugLogs.length'') other_calls_text"
  by (simp_all add: other_calls_text_def display_comment_def text_eval del: sublist_code)

lemma split_other_calls:
  "split_on 10 other_calls_text = [str ''  console.log(count)'', str ''  logDebug(count)'', []]"
  by (simp add: other_calls_text_def str_def)

lemma other_calls_lines:
  "\<not> starts_with_call (str ''  console.log(count)'')" "\<not> starts_with_call (str ''  logDebug(count)'')"
  "\<not> starts_with_call []"
  by (simp_all add: starts_with_call_def str_def is_space_def)

text \<open>The theorem at a text with two calls of other names.\<close>

theorem selective_removal_witness:
  "\<not> list_ex starts_with_call (split_on 10 other_calls_text)
   \<and> \<not> sublist display_comment other_calls_text
   \<and> \<not> sublist (str ''debugLogs.length'') other_calls_text
   \<and> unpatch other_calls_text = other_calls_text"
proof -
  have l: "\<forall>l\<in>set (split_on 10 other_calls_text). \<not> starts_with_call l"
    by (simp add: split_other_calls other_calls_lines)
  then have e: "\<not> list_ex starts_with_call (split_on 10 other_calls_text)"
    by (simp add: list_ex_iff)
  from l selective_removal[of other_calls_text] other_calls_eval(2,3)
  have "unpatch other_calls_text = other_calls_text" by blast
  with e other_calls_eval(2,3) show ?thesis by simp
qed

lemma remove_calls_nested_block: "remove_calls nested_block_text = nested_block_text"
proof -
  have "\<not> sublist (str ''addDebugLog('') nested_block_text"
    by (simp add: nested_block_text_def text_eval del: sublist_code)
  then have "\<not> has_call_shape nested_block_text" using call_shape_has_call by blast
  then show ?thesis by (simp add: remove_calls_def re_sub_no_match no_call_shape_no_match)
qed

lemma remove_display_nested_block: "remove_display nested_block_text = nested_block_text"
proof -
  have "\<not> sublist display_comment nested_block_text"
    by (simp add: nested_block_text_def display_comment_def text_eval del: sublist_code)
  then show ?thesis by (simp add: remove_display_def re_sub_no_match no_comment_no_match)
qed

lemma scan_nested_block:
  "scan_lines [str ''<a/>'', str ''{debugLogs.length > 0 && ('',
       str ''<div style={{color: 1}}>'', str ''{open && ('', str '')}'', str '')}'', str ''<p/>'']
     = \<lparr>skip_until_close = 0, new_lines = [str ''<a/>'', str ''<p/>'']\<rparr>"
  by (simp add: scan_lines_def scan_step_marker scan_step_skip scan_step_keep marker_line_0
      no_marker_samples brace_delta_samples)

lemma remove_calls_multiline:
  "remove_calls multiline_call_text = str ''bar(2)'' @ [10]"
  by (simp add: remove_calls_def line_pattern_items multiline_call_text_def
      str_def is_space_def re_sub.simps Let_def)

lemma unpatch_multiline: "unpatch multiline_call_text = str ''bar(2)'' @ [10]"
proof -
  have "\<not> sublist display_comment (str ''bar(2)'' @ [10])"
    by (simp add: display_comment_def text_eval del: sublist_code)
  then have d: "remove_display (str ''bar(2)'' @ [10]) = str ''bar(2)'' @ [10]"
    by (simp add: remove_display_def re_sub_no_match no_comment_no_match)
  have "\<not> sublist (str ''debugLogs.length'') (str ''bar(2)'' @ [10])"
    by (simp add: text_eval del: sublist_code)
  then show ?thesis by (simp add: unpatch_def remove_calls_multiline d fallback_def)
qed

lemma multiline_lines:
  "split_on 10 multiline_call_text = [str ''addDebugLog('', str ''foo(1)'', str ''bar(2)'', []]"
  by (simp add: multiline_call_text_def str_def)

lemma multiline_no_statement:
  "\<not> is_call_statement (str ''addDebugLog('')" "\<not> is_call_statement (str ''foo(1)'')"
  "\<not> is_call_statement (str ''bar(2)'')" "\<not> is_call_statement []"
  by (simp_all add: is_call_statement_def str_def is_space_def)

text \<open>
  Claim C5 as stated fails on two kinds of text. The first has no \<open>addDebugLog\<close> call at
  all but contains \<open>debugLogs.length\<close>: the fallback scan runs and removes the block that
  starts there. In the second no line consists of an \<open>addDebugLog(...)\<close> call, but a line
  begins with \<open>addDebugLog(\<close> and the next closing parenthesis stands at the end of a later
  line: the line pattern matches over both lines and they are removed.
\<close>

theorem selective_removal_counterexample:
  "(\<not> sublist (str ''addDebugLog('') nested_block_text
     \<and> unpatch nested_block_text = str ''<a/>'' @ [10] @ str ''<p/>''
     \<and> unpatch nested_block_text \<noteq> nested_block_text)
   \<and> (\<not> list_ex is_call_statement (split_on 10 multiline_call_text)
     \<and> unpatch multiline_call_text = str ''bar(2)'' @ [10]
     \<and> unpatch multiline_call_text \<noteq> multiline_call_text)"
proof -
  have a: "\<not> sublist (str ''addDebugLog('') nested_block_text"
    by (simp add: nested_block_text_def text_eval del: sublist_code)
  have u: "unpatch nested_block_text = str ''<a/>'' @ [10] @ str ''<p/>''"
    by (simp add: unpatch_def remove_calls_nested_block remove_display_nested_block
        fallback_def has_length_nested_block split_nested_block scan_nested_block)
  have n: "str ''<a/>'' @ [10] @ str ''<p/>'' \<noteq> nested_block_text"
    by (simp add: nested_block_text_def str_def)
  have l: "\<not> list_ex is_call_statement (split_on 10 multiline_call_text)"
    by (simp add: multiline_lines multiline_no_statement)
  have m: "str ''bar(2)'' @ [10] \<noteq> multiline_call_text"
    by (simp add: multiline_call_text_def str_def)
  from a u n l m show ?thesis by (simp add: unpatch_multiline)
qed

section \<open>A marker phrase inside the block\<close>

lemma remove_calls_nested_marker: "remove_calls nested_marker_text = nested_marker_text"
proof -
  have "\<not> sublist (str ''addDebugLog('') nested_marker_text"
    by (simp add: nested_marker_text_def text_eval del: sublist_code)
  then have "\<not> has_call_shape nested_marker_text" using call_shape_has_call by blast
  then show ?thesis by (simp add: remove_calls_def re_sub_no_match no_call_shape_no_match)
qed

lemma remove_display_nested_marker: "remove_display nested_marker_text = nested_marker_text"
proof -
  have "\<not> sublist display_comment nested_marker_text"
    by (simp add: nested_marker_text_def display_comment_def text_eval del: sublist_code)
  then show ?thesis by (simp add: remove_display_def re_sub_no_match no_comment_no_match)
qed

text \<open>
  Claim C4. The brace-counting scan is to remove exactly the span from the marker line
  through the line at which the cumulative brace count is back at zero, and to leave every
  later line. The loop does not do so where a line inside the block contains a marker phrase
  itself: it tests for the phrase first and sets the counter back to one instead of counting
  the braces of that line. On the text below the block behind the first line closes at its
  third line by the brace count (two, one, zero), yet the scan stops skipping one line early
  and leaves the last closing line of the block in the result.
\<close>

theorem nested_marker_block_cut_short:
  "split_on 10 nested_marker_text
     = str ''{debugLogs.length > 0 && ('' # [str ''{debugLogs.length > 5 && ('', str '')}'', str '')}'']
       @ [str ''<p/>'']
   \<and> is_marker_line (str ''{debugLogs.length > 0 && ('')
   \<and> closes_exactly 1 [str ''{debugLogs.length > 5 && ('', str '')}'', str '')}'']
   \<and> fallback nested_marker_text = str '')}'' @ [10] @ str ''<p/>''
   \<and> fallback nested_marker_text \<noteq> join_with 10 [str ''<p/>'']
   \<and> unpatch nested_marker_text = str '')}'' @ [10] @ str ''<p/>''"
proof -
  have "str '')}'' @ [10] @ str ''<p/>'' \<noteq> join_with 10 [str ''<p/>'']"
    by (simp add: str_def)
  then show ?thesis
    by (simp add: unpatch_def remove_calls_nested_marker remove_display_nested_marker
        fallback_nested_marker split_nested_marker marker_line_0 brace_delta_samples)
qed

section \<open>Running the Unpatcher twice\<close>

subsection \<open>The line removal, step by step\<close>















subsection \<open>Phrases within one line\<close>




















end
